theory Spec2Isabelle
  imports Main "HOL-Library.Multiset"
begin

section \<open>Data model of the action executor\<close>

text \<open>
  Go's \<^verbatim>\<open>time.Time\<close> (standard library): an instant, counted in seconds and
  nanoseconds from January 1 of year 1 UTC, together with a location. \<^verbatim>\<open>IsZero\<close>
  looks at the instant only, so a value can be zero without being the zero value of the
  struct. The location is kept as its name, the empty name standing for the nil pointer.
\<close>

record Time =
  sec :: int
  nsec :: int
  loc :: string

definition IsZero :: "Time \<Rightarrow> bool" where
  "IsZero t = (sec t = 0 \<and> nsec t = 0)"

definition zeroTime :: Time where
  "zeroTime = \<lparr>sec = 0, nsec = 0, loc = ''''\<rparr>"

text \<open>
  Go's \<^verbatim>\<open>error\<close> interface: a value of it is \<open>error option\<close>, with \<open>None\<close>
  for \<^verbatim>\<open>nil\<close>.
\<close>

datatype error = Failure string

text \<open>
  Modelled from the spec: the declaration of \<^verbatim>\<open>PatchInput\<close> is not in the files
  of \<^verbatim>\<open>src/\<close>. The spec calls it a value describing a produced diff for one
  repository, equality-comparable, whose zero value means that no patch was produced. The
  executor only compares it with the composite literal \<^verbatim>\<open>PatchInput{}\<close>.
  It is taken here as a struct of four strings.
\<close>

datatype PatchInput = PatchInput (repository: string) (baseRevision: string)
  (baseRef: string) (patch: string)

definition zeroPatch :: PatchInput where
  "zeroPatch = PatchInput '''' '''' '''' ''''"

text \<open>
  Modelled from the spec: the declaration of \<^verbatim>\<open>ActionRepoStatus\<close> is not in the
  files of \<^verbatim>\<open>src/\<close> either. Its fields are the six that
  \<^verbatim>\<open>updateRepoStatus\<close> reads and writes, which are the six the spec lists.
\<close>

record ActionRepoStatus =
  LogFile :: string
  EnqueuedAt :: Time
  StartedAt :: Time
  FinishedAt :: Time
  Patch :: PatchInput
  Err :: "error option"

definition zeroStatus :: ActionRepoStatus where
  "zeroStatus = \<lparr>LogFile = '''', EnqueuedAt = zeroTime, StartedAt = zeroTime,
     FinishedAt = zeroTime, Patch = zeroPatch, Err = None\<rparr>"

text \<open>
  Modelled from the spec: \<^verbatim>\<open>parallel.Run\<close> comes from a library outside the
  repository. Its contract in the spec: \<^verbatim>\<open>Acquire\<close> blocks until fewer than N
  permits are outstanding, then grants one; \<^verbatim>\<open>Release\<close> returns a permit;
  \<^verbatim>\<open>Error\<close> records a failure without blocking;
  \<^verbatim>\<open>Wait\<close> blocks until all acquired permits have been released and returns
  the first error recorded through \<^verbatim>\<open>Error\<close>, or none. The model keeps the
  limit, the number of permits that are out and the errors recorded so far, in order.
\<close>

record Run =
  limit :: int
  outstanding :: nat
  errs :: "error list"

definition NewRun :: "int \<Rightarrow> Run" where
  "NewRun maxPar = \<lparr>limit = maxPar, outstanding = 0, errs = []\<rparr>"

text \<open>Whether \<^verbatim>\<open>Acquire\<close> can go on; when it cannot, the caller stays blocked.\<close>

definition canAcquire :: "Run \<Rightarrow> bool" where
  "canAcquire r = (int (outstanding r) < limit r)"

definition Acquire :: "Run \<Rightarrow> Run" where
  "Acquire r = r\<lparr>outstanding := Suc (outstanding r)\<rparr>"

text \<open>
  \<^verbatim>\<open>Release\<close> is only called by a goroutine that holds a permit, so the
  subtraction is never taken at zero (lemma \<open>release_has_permit\<close> below).
\<close>

definition Release :: "Run \<Rightarrow> Run" where
  "Release r = r\<lparr>outstanding := outstanding r - 1\<rparr>"

definition Error :: "error \<Rightarrow> Run \<Rightarrow> Run" where
  "Error e r = r\<lparr>errs := errs r @ [e]\<rparr>"

definition firstError :: "Run \<Rightarrow> error option" where
  "firstError r = (case errs r of [] \<Rightarrow> None | e # _ \<Rightarrow> Some e)"

text \<open>\<^verbatim>\<open>Wait\<close>: \<open>None\<close> while it has to block, else the value it returns.\<close>

definition Wait :: "Run \<Rightarrow> error option option" where
  "Wait r = (if outstanding r = 0 then Some (firstError r) else None)"

text \<open>
  The effects of the executor that are not a change of its fields: taking and giving back
  the mutex \<^verbatim>\<open>reposMu\<close>, and a call of the observer \<^verbatim>\<open>opt.onUpdate\<close>
  with the map it is handed. They are logged in the order in which they happen.
\<close>

datatype 'r event =
    Lock
  | Unlock
  | OnUpdate "'r \<rightharpoonup> ActionRepoStatus"

text \<open>
  \<^verbatim>\<open>actionExecutor\<close>, lines 21 to 33. The type \<open>'r\<close> is \<^verbatim>\<open>ActionRepo\<close>, the
  key of the map. \<open>onUpdate\<close> says whether \<^verbatim>\<open>opt.onUpdate\<close> is not nil; each of
  the two channels, which are only ever closed, is the flag "has been closed" (the field
  \<^verbatim>\<open>done\<close> is \<open>doneCh\<close> here). The action, the logger and the cache options
  are not read by the functions below, except for the progress calls of \<^verbatim>\<open>start\<close>.
\<close>

record 'r actionExecutor =
  onUpdate :: bool
  repos :: "'r \<rightharpoonup> ActionRepoStatus"
  par :: Run
  doneCh :: bool
  doneEnqueuing :: bool
  trace :: "'r event list"

definition newActionExecutor :: "int \<Rightarrow> bool \<Rightarrow> 'r actionExecutor" where
  "newActionExecutor parallelism observer =
     \<lparr>onUpdate = observer, repos = Map.empty, par = NewRun parallelism,
      doneCh = False, doneEnqueuing = False, trace = []\<rparr>"

section \<open>Status updates\<close>

text \<open>Reading a Go map: a missing key gives the zero value of the element type.\<close>

definition getStatus :: "('r \<rightharpoonup> ActionRepoStatus) \<Rightarrow> 'r \<Rightarrow> ActionRepoStatus" where
  "getStatus m repo = (case m repo of None \<Rightarrow> zeroStatus | Some s \<Rightarrow> s)"

text \<open>The delta update of \<^verbatim>\<open>updateRepoStatus\<close>, lines 62 to 79.\<close>

definition deltaUpdate :: "ActionRepoStatus \<Rightarrow> ActionRepoStatus \<Rightarrow> ActionRepoStatus" where
  "deltaUpdate prev status =
    (let status = (if LogFile status = '''' then status\<lparr>LogFile := LogFile prev\<rparr> else status);
         status = (if IsZero (EnqueuedAt status)
                   then status\<lparr>EnqueuedAt := EnqueuedAt prev\<rparr> else status);
         status = (if IsZero (StartedAt status)
                   then status\<lparr>StartedAt := StartedAt prev\<rparr> else status);
         status = (if IsZero (FinishedAt status)
                   then status\<lparr>FinishedAt := FinishedAt prev\<rparr> else status);
         status = (if Patch status = zeroPatch then status\<lparr>Patch := Patch prev\<rparr> else status);
         status = (if Err status = None then status\<lparr>Err := Err prev\<rparr> else status)
     in status)"

text \<open>
  \<^verbatim>\<open>updateRepoStatus\<close>, lines 56 to 86. The unlock is deferred, so it is the last
  effect of the call, after the observer has run.
\<close>

definition updateRepoStatus ::
  "'r actionExecutor \<Rightarrow> 'r \<Rightarrow> ActionRepoStatus \<Rightarrow> 'r actionExecutor" where
  "updateRepoStatus x repo status =
    (let x = x\<lparr>trace := trace x @ [Lock]\<rparr>;
         prev = getStatus (repos x) repo;
         status = deltaUpdate prev status;
         x = x\<lparr>repos := (repos x)(repo \<mapsto> status)\<rparr>;
         x = (if onUpdate x then x\<lparr>trace := trace x @ [OnUpdate (repos x)]\<rparr> else x)
     in x\<lparr>trace := trace x @ [Unlock]\<rparr>)"

text \<open>
  \<^verbatim>\<open>enqueueRepo\<close>, lines 52 to 54. The clock is an input: \<open>now\<close> is what
  \<^verbatim>\<open>time.Now()\<close> returns at the call.
\<close>

definition enqueueRepo :: "'r actionExecutor \<Rightarrow> 'r \<Rightarrow> Time \<Rightarrow> 'r actionExecutor" where
  "enqueueRepo x repo now = updateRepoStatus x repo (zeroStatus\<lparr>EnqueuedAt := now\<rparr>)"

text \<open>A sequence of calls of \<^verbatim>\<open>updateRepoStatus\<close>, in call order.\<close>

fun runUpdates ::
  "'r actionExecutor \<Rightarrow> ('r \<times> ActionRepoStatus) list \<Rightarrow> 'r actionExecutor" where
  "runUpdates x [] = x"
| "runUpdates x ((repo, status) # calls) = runUpdates (updateRepoStatus x repo status) calls"

text \<open>The statuses that a sequence of calls passes for one repository.\<close>

definition statusesFor :: "'r \<Rightarrow> ('r \<times> ActionRepoStatus) list \<Rightarrow> ActionRepoStatus list" where
  "statusesFor repo calls = map snd (filter (\<lambda>c. fst c = repo) calls)"

text \<open>
  The merge as the spec words it: for one field, the last incoming value that is not
  empty wins, and when every incoming value is empty the value stored before stays.
\<close>

definition lastNonEmpty :: "('a \<Rightarrow> bool) \<Rightarrow> 'a \<Rightarrow> 'a list \<Rightarrow> 'a" where
  "lastNonEmpty isEmpty prior vs =
     (let ws = filter (\<lambda>v. \<not> isEmpty v) vs in if ws = [] then prior else last ws)"

definition mergeLastWins :: "ActionRepoStatus \<Rightarrow> ActionRepoStatus list \<Rightarrow> ActionRepoStatus" where
  "mergeLastWins prev ss =
     \<lparr>LogFile = lastNonEmpty (\<lambda>v. v = '''') (LogFile prev) (map LogFile ss),
      EnqueuedAt = lastNonEmpty IsZero (EnqueuedAt prev) (map EnqueuedAt ss),
      StartedAt = lastNonEmpty IsZero (StartedAt prev) (map StartedAt ss),
      FinishedAt = lastNonEmpty IsZero (FinishedAt prev) (map FinishedAt ss),
      Patch = lastNonEmpty (\<lambda>v. v = zeroPatch) (Patch prev) (map Patch ss),
      Err = lastNonEmpty (\<lambda>v. v = None) (Err prev) (map Err ss)\<rparr>"

section \<open>Collecting the patches\<close>

text \<open>
  Go ranges over a map in an order of its own choosing. A range over the map \<open>m\<close> is given
  by the list \<open>ks\<close> of its keys in the order in which this range visits them.
\<close>

definition rangeOrder :: "'r list \<Rightarrow> ('r \<rightharpoonup> 'v) \<Rightarrow> bool" where
  "rangeOrder ks m = (distinct ks \<and> set ks = dom m)"

text \<open>The loop of \<^verbatim>\<open>allPatches\<close>, lines 92 to 96, over the statuses in range order.\<close>

fun collectPatches :: "ActionRepoStatus list \<Rightarrow> PatchInput list \<Rightarrow> PatchInput list" where
  "collectPatches [] patches = patches"
| "collectPatches (status # rest) patches =
     collectPatches rest
       (if Patch status \<noteq> zeroPatch \<and> Err status = None then patches @ [Patch status]
        else patches)"

text \<open>
  \<^verbatim>\<open>allPatches\<close>, lines 88 to 98. The call takes the mutex and gives it back; it
  leaves the map as it is.
\<close>

definition allPatches :: "'r list \<Rightarrow> 'r actionExecutor \<Rightarrow> PatchInput list" where
  "allPatches ks x = collectPatches (map (getStatus (repos x)) ks) []"

section \<open>Waiting\<close>

text \<open>
  What a call does when nothing else runs in between: it returns a value, or it stays
  blocked in the state it was called in, or it panics.
\<close>

datatype 'a outcome = Returns 'a | Blocks | Panics

text \<open>
  \<^verbatim>\<open>wait\<close>, lines 143 to 148: the receive on \<^verbatim>\<open>doneEnqueuing\<close> goes on
  once the channel is closed, \<^verbatim>\<open>par.Wait()\<close> once no permit is out, and closing a
  channel that is closed already is a run-time panic.
\<close>

definition wait :: "'r actionExecutor \<Rightarrow> (error option \<times> 'r actionExecutor) outcome" where
  "wait x =
    (if \<not> doneEnqueuing x then Blocks
     else case Wait (par x) of
            None \<Rightarrow> Blocks
          | Some err \<Rightarrow> if doneCh x then Panics else Returns (err, x\<lparr>doneCh := True\<rparr>))"

section \<open>The goroutines of one run\<close>

text \<open>
  One run of the executor is a transition system. Next to the executor, a state holds
  how far each goroutine has come:
  \<^item> the call of \<^verbatim>\<open>start\<close>: not called; called, before the keys are snapshotted;
    in the dispatch loop, with the elements of \<^verbatim>\<open>allRepos\<close> still to visit; returned;
  \<^item> one worker for each \<^verbatim>\<open>go\<close> statement of the loop (lines 130 to 137), with
    the repository it was handed: inside \<^verbatim>\<open>do\<close>; \<^verbatim>\<open>do\<close> has returned
    \<^verbatim>\<open>err\<close>; running its deferred calls; gone;
  \<^item> the sampler of lines 102 to 115: not launched; about to look at \<^verbatim>\<open>done\<close>;
    about to call the observer; returned;
  \<^item> the call of \<^verbatim>\<open>wait\<close>: not called; at the receive on
    \<^verbatim>\<open>doneEnqueuing\<close>; at \<^verbatim>\<open>par.Wait()\<close>; about to close
    \<^verbatim>\<open>done\<close>, holding the error to return; returned; panicked.
\<close>

datatype phase = Doing | Returned "error option" | Releasing | Exited

datatype 'r startPc = NotStarted | Snapshotting | Dispatching "'r list" | StartReturned

datatype samplerPc = SamplerOff | SamplerCheck | SamplerSample | SamplerStopped

datatype waitPc =
    WaitNotCalled
  | WaitEnqueuing
  | WaitPar
  | WaitClosing "error option"
  | WaitReturned "error option"
  | WaitPanicked

record 'r system =
  ex :: "'r actionExecutor"
  startPc :: "'r startPc"
  allRepos :: "'r list"
  workers :: "('r \<times> phase) list"
  samplerPc :: samplerPc
  waitPc :: waitPc

definition initial :: "int \<Rightarrow> bool \<Rightarrow> 'r system" where
  "initial parallelism observer =
     \<lparr>ex = newActionExecutor parallelism observer, startPc = NotStarted, allRepos = [],
      workers = [], samplerPc = SamplerOff, waitPc = WaitNotCalled\<rparr>"

text \<open>
  The steps of a run. A section of code that runs under the mutex is one step. The calls
  of the progress sink (\<^verbatim>\<open>SetTotalSteps\<close>, \<^verbatim>\<open>IncJobs\<close>,
  \<^verbatim>\<open>DecJobs\<close>) do not touch the executor and are left out. One call of
  \<^verbatim>\<open>start\<close> and one call of \<^verbatim>\<open>wait\<close> are followed;
  \<^verbatim>\<open>enqueueRepo\<close> may be called at any time.
\<close>

text \<open>
  Modelled from the spec: \<^verbatim>\<open>do\<close> is a method of the executor that the files of
  \<^verbatim>\<open>src/\<close> do not hold. By the spec it runs the steps of the action for its
  repository and, on completion, calls \<^verbatim>\<open>updateRepoStatus\<close> with the finished
  timestamp and either a patch or an error; it calls back exactly once with a terminal
  status, and a failure is recorded in the \<^verbatim>\<open>Err\<close> field of the status of its
  repository. A status is terminal when its finished timestamp is set.
\<close>

definition terminal :: "ActionRepoStatus \<Rightarrow> bool" where
  "terminal status = (\<not> IsZero (FinishedAt status))"

text \<open>
  Modelled from the spec: the steps of \<^verbatim>\<open>do\<close> are the rules \<open>do_update\<close> and
  \<open>do_return\<close>. While it runs, \<^verbatim>\<open>do\<close> may update the status of its repository
  any number of times with a status that is not terminal; it ends with the one update that
  carries a terminal status and the error it returns, and returns that error (the update
  and the return are one step: the return touches nothing that is shared). The other rules
  follow the source: \<^verbatim>\<open>enqueueRepo\<close> (lines 52 to 54), \<^verbatim>\<open>start\<close>
  (lines 100 to 141) with its workers (lines 130 to 137) and its sampler (lines 102 to
  115), and \<^verbatim>\<open>wait\<close> (lines 143 to 148).
\<close>

inductive step :: "'r system \<Rightarrow> 'r system \<Rightarrow> bool" where
  enqueue:
    "step s (s\<lparr>ex := enqueueRepo (ex s) repo now\<rparr>)"
| start_begin:
    "startPc s = NotStarted \<Longrightarrow>
     step s (s\<lparr>startPc := Snapshotting,
               samplerPc := (if onUpdate (ex s) then SamplerCheck else SamplerOff)\<rparr>)"
| start_snapshot:
    "startPc s = Snapshotting \<Longrightarrow> rangeOrder ks (repos (ex s)) \<Longrightarrow>
     step s (s\<lparr>ex := (ex s)\<lparr>trace := trace (ex s) @ [Lock, Unlock]\<rparr>,
               allRepos := ks, startPc := Dispatching ks\<rparr>)"
| start_dispatch:
    "startPc s = Dispatching (repo # rest) \<Longrightarrow> canAcquire (par (ex s)) \<Longrightarrow>
     step s (s\<lparr>ex := (ex s)\<lparr>par := Acquire (par (ex s))\<rparr>,
               workers := workers s @ [(repo, Doing)], startPc := Dispatching rest\<rparr>)"
| start_close:
    "startPc s = Dispatching [] \<Longrightarrow>
     step s (s\<lparr>ex := (ex s)\<lparr>doneEnqueuing := True\<rparr>, startPc := StartReturned\<rparr>)"
| do_update:
    "i < length (workers s) \<Longrightarrow> workers s ! i = (repo, Doing) \<Longrightarrow> \<not> terminal status \<Longrightarrow>
     step s (s\<lparr>ex := updateRepoStatus (ex s) repo status\<rparr>)"
| do_return:
    "i < length (workers s) \<Longrightarrow> workers s ! i = (repo, Doing) \<Longrightarrow>
     terminal status \<Longrightarrow> Err status = err \<Longrightarrow>
     step s (s\<lparr>ex := updateRepoStatus (ex s) repo status,
               workers := (workers s)[i := (repo, Returned err)]\<rparr>)"
| worker_error:
    "i < length (workers s) \<Longrightarrow> workers s ! i = (repo, Returned err) \<Longrightarrow>
     step s (s\<lparr>ex := (ex s)\<lparr>par := (case err of None \<Rightarrow> par (ex s)
                                       | Some e \<Rightarrow> Error e (par (ex s)))\<rparr>,
               workers := (workers s)[i := (repo, Releasing)]\<rparr>)"
| worker_release:
    "i < length (workers s) \<Longrightarrow> workers s ! i = (repo, Releasing) \<Longrightarrow>
     step s (s\<lparr>ex := (ex s)\<lparr>par := Release (par (ex s))\<rparr>,
               workers := (workers s)[i := (repo, Exited)]\<rparr>)"
| sampler_check:
    "samplerPc s = SamplerCheck \<Longrightarrow>
     step s (s\<lparr>samplerPc := (if doneCh (ex s) then SamplerStopped else SamplerSample)\<rparr>)"
| sampler_sample:
    "samplerPc s = SamplerSample \<Longrightarrow>
     step s (s\<lparr>ex := (ex s)\<lparr>trace := trace (ex s) @ [Lock, OnUpdate (repos (ex s)), Unlock]\<rparr>,
               samplerPc := SamplerCheck\<rparr>)"
| wait_call:
    "waitPc s = WaitNotCalled \<Longrightarrow> step s (s\<lparr>waitPc := WaitEnqueuing\<rparr>)"
| wait_enqueuing:
    "waitPc s = WaitEnqueuing \<Longrightarrow> doneEnqueuing (ex s) \<Longrightarrow> step s (s\<lparr>waitPc := WaitPar\<rparr>)"
| wait_par:
    "waitPc s = WaitPar \<Longrightarrow> Wait (par (ex s)) = Some err \<Longrightarrow>
     step s (s\<lparr>waitPc := WaitClosing err\<rparr>)"
| wait_close:
    "waitPc s = WaitClosing err \<Longrightarrow> \<not> doneCh (ex s) \<Longrightarrow>
     step s (s\<lparr>ex := (ex s)\<lparr>doneCh := True\<rparr>, waitPc := WaitReturned err\<rparr>)"
| wait_panic:
    "waitPc s = WaitClosing err \<Longrightarrow> doneCh (ex s) \<Longrightarrow> step s (s\<lparr>waitPc := WaitPanicked\<rparr>)"

inductive reachable :: "'r system \<Rightarrow> bool" where
  reachable_initial: "reachable (initial parallelism observer)"
| reachable_step: "reachable s \<Longrightarrow> step s s' \<Longrightarrow> reachable s'"

text \<open>
  The workers that still hold their permit, the workers inside \<^verbatim>\<open>do\<close>, and the
  repositories dispatched so far.
\<close>

definition active :: "('r \<times> phase) list \<Rightarrow> nat" where
  "active ws = length (filter (\<lambda>w. snd w \<noteq> Exited) ws)"

definition running :: "('r \<times> phase) list \<Rightarrow> nat" where
  "running ws = length (filter (\<lambda>w. snd w = Doing) ws)"

definition dispatched :: "'r system \<Rightarrow> 'r list" where
  "dispatched s = map fst (workers s)"

text \<open>
  \<open>started\<close>: the call of \<^verbatim>\<open>start\<close> has taken its snapshot. \<open>complete\<close>: the
  call of \<^verbatim>\<open>start\<close> has returned, every element of \<^verbatim>\<open>allRepos\<close> has
  been dispatched, and every worker has gone, leaving a terminal status for its
  repository.
\<close>

definition started :: "'r system \<Rightarrow> bool" where
  "started s = (startPc s \<noteq> NotStarted \<and> startPc s \<noteq> Snapshotting)"

definition complete :: "'r system \<Rightarrow> bool" where
  "complete s =
    (startPc s = StartReturned \<and> dispatched s = allRepos s \<and>
     (\<forall>w\<in>set (workers s). snd w = Exited \<and> terminal (getStatus (repos (ex s)) (fst w))))"

text \<open>
  What is left to do in a run that has started: for a worker the moves it still has to
  make (the return of \<^verbatim>\<open>do\<close>, the report of the error, the release), for the
  dispatch loop four for each repository it has not dispatched yet (its dispatch and the
  three moves of its worker) and one for closing \<^verbatim>\<open>doneEnqueuing\<close>.
\<close>

fun rank :: "phase \<Rightarrow> nat" where
  "rank Doing = 3"
| "rank (Returned err) = 2"
| "rank Releasing = 1"
| "rank Exited = 0"

definition todo :: "'r system \<Rightarrow> nat" where
  "todo s =
    (case startPc s of Dispatching rest \<Rightarrow> 4 * length rest + 1 | _ \<Rightarrow> 0)
    + sum_list (map (\<lambda>w. rank (snd w)) (workers s))"

text \<open>
  For each call of the observer in a log of effects, whether the mutex was held when the
  call was made; \<open>held\<close> says whether it is held before the first effect.
\<close>

fun callsWithLock :: "bool \<Rightarrow> 'r event list \<Rightarrow> bool list" where
  "callsWithLock held [] = []"
| "callsWithLock held (Lock # es) = callsWithLock True es"
| "callsWithLock held (Unlock # es) = callsWithLock False es"
| "callsWithLock held (OnUpdate m # es) = held # callsWithLock held es"

section \<open>Invariants of a run\<close>

text \<open>
  What holds in every state of a run: where the call of \<^verbatim>\<open>start\<close> stands
  against the workers it has launched and the channel \<^verbatim>\<open>doneEnqueuing\<close>; that
  the permits that are out are those of the workers still at work, that no error is
  recorded before a worker exists, and that a worker only exists when the limit is at
  least one; where the call of \<^verbatim>\<open>wait\<close> stands against the two channels, the
  workers and the error it holds; and that a worker whose \<^verbatim>\<open>do\<close> has returned
  has left a terminal status for its repository, with an error in it when it has failed.
\<close>

definition inv_start :: "'r system \<Rightarrow> bool" where
  "inv_start s =
    (distinct (allRepos s) \<and>
     (case startPc s of
        NotStarted \<Rightarrow> workers s = [] \<and> \<not> doneEnqueuing (ex s)
      | Snapshotting \<Rightarrow> workers s = [] \<and> \<not> doneEnqueuing (ex s)
      | Dispatching rest \<Rightarrow> dispatched s @ rest = allRepos s \<and> \<not> doneEnqueuing (ex s)
      | StartReturned \<Rightarrow> dispatched s = allRepos s \<and> doneEnqueuing (ex s)))"

definition inv_counts :: "'r system \<Rightarrow> bool" where
  "inv_counts s =
    (outstanding (par (ex s)) = active (workers s) \<and>
     (workers s = [] \<longrightarrow> errs (par (ex s)) = []) \<and>
     (workers s \<noteq> [] \<longrightarrow> 1 \<le> limit (par (ex s))))"

definition inv_wait :: "'r system \<Rightarrow> bool" where
  "inv_wait s =
    (case waitPc s of
       WaitNotCalled \<Rightarrow> \<not> doneCh (ex s)
     | WaitEnqueuing \<Rightarrow> \<not> doneCh (ex s)
     | WaitPar \<Rightarrow> \<not> doneCh (ex s) \<and> doneEnqueuing (ex s)
     | WaitClosing err \<Rightarrow>
         \<not> doneCh (ex s) \<and> doneEnqueuing (ex s) \<and> active (workers s) = 0
         \<and> err = firstError (par (ex s))
     | WaitReturned err \<Rightarrow>
         doneCh (ex s) \<and> doneEnqueuing (ex s) \<and> active (workers s) = 0
         \<and> err = firstError (par (ex s))
     | WaitPanicked \<Rightarrow> False)"

definition inv_terminal :: "'r system \<Rightarrow> bool" where
  "inv_terminal s =
    (\<forall>w\<in>set (workers s).
       (snd w \<noteq> Doing \<longrightarrow> terminal (getStatus (repos (ex s)) (fst w))) \<and>
       (\<forall>e. snd w = Returned (Some e) \<longrightarrow> Err (getStatus (repos (ex s)) (fst w)) \<noteq> None))"

section \<open>Example values\<close>

text \<open>Concrete times, statuses and executors, on which the theorems below are run.\<close>

definition exampleTime :: "int \<Rightarrow> Time" where
  "exampleTime n = \<lparr>sec = n, nsec = 0, loc = ''''\<rparr>"

definition exampleStatus :: ActionRepoStatus where
  "exampleStatus = \<lparr>LogFile = ''a.log'', EnqueuedAt = exampleTime 1, StartedAt = exampleTime 2,
     FinishedAt = exampleTime 3, Patch = PatchInput ''repo'' ''rev'' ''ref'' ''diff'',
     Err = Some (Failure ''boom'')\<rparr>"

definition exampleExecutor :: "nat actionExecutor" where
  "exampleExecutor = updateRepoStatus (newActionExecutor 2 True) 0 exampleStatus"

definition exampleStarted :: "nat actionExecutor" where
  "exampleStarted = (newActionExecutor 2 False)\<lparr>doneEnqueuing := True\<rparr>"

text \<open>
  Four runs, state by state. In the first a repository is enqueued, \<^verbatim>\<open>start\<close>
  snapshots the keys, another repository is enqueued, the loop dispatches the first one
  and returns, the worker fails, reports its error and gives its permit back, and
  \<^verbatim>\<open>wait\<close> is called and returns that error. In the second
  \<^verbatim>\<open>start\<close> is called on an executor without repositories and returns. In the
  third the limit is two, two repositories are enqueued and dispatched, and the operation
  of the first one fails while that of the second one is still running. In the fourth the
  limit is zero and \<^verbatim>\<open>start\<close> snapshots one repository.
\<close>

definition failedStatus :: ActionRepoStatus where
  "failedStatus = zeroStatus\<lparr>FinishedAt := exampleTime 3, Err := Some (Failure ''boom'')\<rparr>"

definition runA0 :: "nat system" where
  "runA0 = initial 1 False"

definition runA1 :: "nat system" where
  "runA1 = runA0\<lparr>ex := enqueueRepo (ex runA0) 0 (exampleTime 1)\<rparr>"

definition runA2 :: "nat system" where
  "runA2 = runA1\<lparr>startPc := Snapshotting,
     samplerPc := (if onUpdate (ex runA1) then SamplerCheck else SamplerOff)\<rparr>"

definition runA3 :: "nat system" where
  "runA3 = runA2\<lparr>ex := (ex runA2)\<lparr>trace := trace (ex runA2) @ [Lock, Unlock]\<rparr>,
     allRepos := [0], startPc := Dispatching [0]\<rparr>"

definition runA4 :: "nat system" where
  "runA4 = runA3\<lparr>ex := enqueueRepo (ex runA3) 1 (exampleTime 2)\<rparr>"

definition runA5 :: "nat system" where
  "runA5 = runA4\<lparr>ex := (ex runA4)\<lparr>par := Acquire (par (ex runA4))\<rparr>,
     workers := workers runA4 @ [(0, Doing)], startPc := Dispatching []\<rparr>"

definition runA6 :: "nat system" where
  "runA6 = runA5\<lparr>ex := (ex runA5)\<lparr>doneEnqueuing := True\<rparr>, startPc := StartReturned\<rparr>"

definition runA7 :: "nat system" where
  "runA7 = runA6\<lparr>ex := updateRepoStatus (ex runA6) 0 failedStatus,
     workers := (workers runA6)[0 := (0, Returned (Some (Failure ''boom'')))]\<rparr>"

definition runA8 :: "nat system" where
  "runA8 = runA7\<lparr>ex := (ex runA7)\<lparr>par :=
       (case Some (Failure ''boom'') of None \<Rightarrow> par (ex runA7)
        | Some e \<Rightarrow> Error e (par (ex runA7)))\<rparr>,
     workers := (workers runA7)[0 := (0, Releasing)]\<rparr>"

definition runA9 :: "nat system" where
  "runA9 = runA8\<lparr>ex := (ex runA8)\<lparr>par := Release (par (ex runA8))\<rparr>,
     workers := (workers runA8)[0 := (0, Exited)]\<rparr>"

definition runA10 :: "nat system" where
  "runA10 = runA9\<lparr>waitPc := WaitEnqueuing\<rparr>"

definition runA11 :: "nat system" where
  "runA11 = runA10\<lparr>waitPc := WaitPar\<rparr>"

definition runA12 :: "nat system" where
  "runA12 = runA11\<lparr>waitPc := WaitClosing (Some (Failure ''boom''))\<rparr>"

definition runA13 :: "nat system" where
  "runA13 = runA12\<lparr>ex := (ex runA12)\<lparr>doneCh := True\<rparr>,
     waitPc := WaitReturned (Some (Failure ''boom''))\<rparr>"

definition runB0 :: "nat system" where
  "runB0 = initial 1 False"

definition runB1 :: "nat system" where
  "runB1 = runB0\<lparr>startPc := Snapshotting,
     samplerPc := (if onUpdate (ex runB0) then SamplerCheck else SamplerOff)\<rparr>"

definition runB2 :: "nat system" where
  "runB2 = runB1\<lparr>ex := (ex runB1)\<lparr>trace := trace (ex runB1) @ [Lock, Unlock]\<rparr>,
     allRepos := [], startPc := Dispatching []\<rparr>"

definition runB3 :: "nat system" where
  "runB3 = runB2\<lparr>ex := (ex runB2)\<lparr>doneEnqueuing := True\<rparr>, startPc := StartReturned\<rparr>"

definition runC0 :: "nat system" where
  "runC0 = initial 2 False"

definition runC1 :: "nat system" where
  "runC1 = runC0\<lparr>ex := enqueueRepo (ex runC0) 0 (exampleTime 1)\<rparr>"

definition runC2 :: "nat system" where
  "runC2 = runC1\<lparr>ex := enqueueRepo (ex runC1) 1 (exampleTime 1)\<rparr>"

definition runC3 :: "nat system" where
  "runC3 = runC2\<lparr>startPc := Snapshotting,
     samplerPc := (if onUpdate (ex runC2) then SamplerCheck else SamplerOff)\<rparr>"

definition runC4 :: "nat system" where
  "runC4 = runC3\<lparr>ex := (ex runC3)\<lparr>trace := trace (ex runC3) @ [Lock, Unlock]\<rparr>,
     allRepos := [0, 1], startPc := Dispatching [0, 1]\<rparr>"

definition runC5 :: "nat system" where
  "runC5 = runC4\<lparr>ex := (ex runC4)\<lparr>par := Acquire (par (ex runC4))\<rparr>,
     workers := workers runC4 @ [(0, Doing)], startPc := Dispatching [1]\<rparr>"

definition runC6 :: "nat system" where
  "runC6 = runC5\<lparr>ex := (ex runC5)\<lparr>par := Acquire (par (ex runC5))\<rparr>,
     workers := workers runC5 @ [(1, Doing)], startPc := Dispatching []\<rparr>"

definition runC7 :: "nat system" where
  "runC7 = runC6\<lparr>ex := updateRepoStatus (ex runC6) 0 failedStatus,
     workers := (workers runC6)[0 := (0, Returned (Some (Failure ''boom'')))]\<rparr>"

definition runC8 :: "nat system" where
  "runC8 = runC7\<lparr>ex := (ex runC7)\<lparr>par :=
       (case Some (Failure ''boom'') of None \<Rightarrow> par (ex runC7)
        | Some e \<Rightarrow> Error e (par (ex runC7)))\<rparr>,
     workers := (workers runC7)[0 := (0, Releasing)]\<rparr>"

definition runZ0 :: "nat system" where
  "runZ0 = initial 0 False"

definition runZ1 :: "nat system" where
  "runZ1 = runZ0\<lparr>ex := enqueueRepo (ex runZ0) 0 (exampleTime 1)\<rparr>"

definition runZ2 :: "nat system" where
  "runZ2 = runZ1\<lparr>startPc := Snapshotting,
     samplerPc := (if onUpdate (ex runZ1) then SamplerCheck else SamplerOff)\<rparr>"

definition runZ3 :: "nat system" where
  "runZ3 = runZ2\<lparr>ex := (ex runZ2)\<lparr>trace := trace (ex runZ2) @ [Lock, Unlock]\<rparr>,
     allRepos := [0], startPc := Dispatching [0]\<rparr>"

section \<open>Properties of the status updates\<close>

lemma repos_updateRepoStatus:
  "repos (updateRepoStatus x repo status) =
     (repos x)(repo \<mapsto> deltaUpdate (getStatus (repos x) repo) status)"
  by (simp add: updateRepoStatus_def Let_def)

lemma getStatus_updateRepoStatus:
  "getStatus (repos (updateRepoStatus x repo status)) r =
     (if r = repo then deltaUpdate (getStatus (repos x) repo) status
      else getStatus (repos x) r)"
  by (simp add: repos_updateRepoStatus getStatus_def)

lemma lastNonEmpty_Nil: "lastNonEmpty isEmpty prior [] = prior"
  by (simp add: lastNonEmpty_def)

lemma lastNonEmpty_Cons:
  "lastNonEmpty isEmpty prior (v # vs) =
     lastNonEmpty isEmpty (if isEmpty v then prior else v) vs"
  by (simp add: lastNonEmpty_def Let_def)

lemma mergeLastWins_Nil: "mergeLastWins prev [] = prev"
  by (simp add: mergeLastWins_def lastNonEmpty_Nil)

lemma mergeLastWins_Cons:
  "mergeLastWins prev (s # ss) = mergeLastWins (deltaUpdate prev s) ss"
  by (auto simp: mergeLastWins_def lastNonEmpty_Cons deltaUpdate_def Let_def)

lemma statusesFor_Nil: "statusesFor r [] = []"
  by (simp add: statusesFor_def)

lemma statusesFor_Cons:
  "statusesFor r ((repo, status) # calls) =
     (if repo = r then status # statusesFor r calls else statusesFor r calls)"
  by (simp add: statusesFor_def)

lemma getStatus_runUpdates:
  "getStatus (repos (runUpdates x calls)) r =
     mergeLastWins (getStatus (repos x) r) (statusesFor r calls)"
proof (induction calls arbitrary: x)
  case Nil
  show ?case by (simp add: statusesFor_Nil mergeLastWins_Nil)
next
  case (Cons c calls)
  obtain repo status where c: "c = (repo, status)" by (cases c)
  show ?case
    by (simp add: c Cons.IH statusesFor_Cons getStatus_updateRepoStatus mergeLastWins_Cons)
qed

lemma repos_runUpdates_untouched:
  "statusesFor r calls = [] \<Longrightarrow> repos (runUpdates x calls) r = repos x r"
proof (induction calls arbitrary: x)
  case Nil
  show ?case by simp
next
  case (Cons c calls)
  obtain repo status where c: "c = (repo, status)" by (cases c)
  from Cons.prems have ne: "repo \<noteq> r" and rest: "statusesFor r calls = []"
    by (auto simp: c statusesFor_Cons split: if_splits)
  from ne show ?case
    by (auto simp: c Cons.IH [OF rest] repos_updateRepoStatus)
qed

lemma repos_runUpdates_touched:
  "statusesFor r calls \<noteq> [] \<Longrightarrow> repos (runUpdates x calls) r \<noteq> None"
proof (induction calls arbitrary: x)
  case Nil
  then show ?case by (simp add: statusesFor_Nil)
next
  case (Cons c calls)
  obtain repo status where c: "c = (repo, status)" by (cases c)
  show ?case
  proof (cases "statusesFor r calls = []")
    case True
    with Cons.prems have "repo = r"
      by (auto simp: c statusesFor_Cons split: if_splits)
    then show ?thesis
      by (simp add: c repos_runUpdates_untouched [OF True] repos_updateRepoStatus)
  next
    case False
    then show ?thesis by (simp add: c Cons.IH)
  qed
qed

lemma deltaUpdate_fields:
  "LogFile (deltaUpdate prev s) = (if LogFile s = '''' then LogFile prev else LogFile s)"
  "EnqueuedAt (deltaUpdate prev s) =
     (if IsZero (EnqueuedAt s) then EnqueuedAt prev else EnqueuedAt s)"
  "StartedAt (deltaUpdate prev s) = (if IsZero (StartedAt s) then StartedAt prev else StartedAt s)"
  "FinishedAt (deltaUpdate prev s) =
     (if IsZero (FinishedAt s) then FinishedAt prev else FinishedAt s)"
  "Patch (deltaUpdate prev s) = (if Patch s = zeroPatch then Patch prev else Patch s)"
  "Err (deltaUpdate prev s) = (if Err s = None then Err prev else Err s)"
  by (auto simp: deltaUpdate_def Let_def)

lemma ex_status: "getStatus (repos exampleExecutor) 0 = exampleStatus"
proof -
  have "getStatus (repos (newActionExecutor 2 True :: nat actionExecutor)) 0 = zeroStatus"
    by (simp add: newActionExecutor_def getStatus_def)
  then show ?thesis
    by (simp add: exampleExecutor_def getStatus_updateRepoStatus
      deltaUpdate_def exampleStatus_def Let_def IsZero_def exampleTime_def zeroPatch_def)
qed

lemma Err_kept_update:
  "Err (getStatus (repos x) repo) \<noteq> None \<Longrightarrow>
   Err (getStatus (repos (updateRepoStatus x r status)) repo) \<noteq> None"
  by (auto simp: getStatus_updateRepoStatus deltaUpdate_fields)

lemma Err_kept_step:
  "step s s' \<Longrightarrow> Err (getStatus (repos (ex s)) repo) \<noteq> None \<Longrightarrow>
   Err (getStatus (repos (ex s')) repo) \<noteq> None"
  by (induction rule: step.induct) (simp_all add: enqueueRepo_def Err_kept_update)

lemma IsZero_zeroTime: "IsZero zeroTime"
  by (simp add: IsZero_def zeroTime_def)

lemma deltaUpdate_enqueue:
  "\<not> IsZero now \<Longrightarrow> deltaUpdate prev (zeroStatus\<lparr>EnqueuedAt := now\<rparr>) = prev\<lparr>EnqueuedAt := now\<rparr>"
  by (cases prev) (simp add: deltaUpdate_def zeroStatus_def IsZero_zeroTime Let_def)

lemma repos_enqueueRepo:
  "\<not> IsZero now \<Longrightarrow>
   repos (enqueueRepo x repo now) = (repos x)(repo \<mapsto> (getStatus (repos x) repo)\<lparr>EnqueuedAt := now\<rparr>)"
  by (simp add: enqueueRepo_def repos_updateRepoStatus deltaUpdate_enqueue)


lemma IsZero_exampleTime: "IsZero (exampleTime n) = (n = 0)"
  by (simp add: IsZero_def exampleTime_def)

lemma exampleTime_inject: "(exampleTime m = exampleTime n) = (m = n)"
  by (simp add: exampleTime_def)

lemma getStatus_new: "getStatus (repos (newActionExecutor n b)) r = zeroStatus"
  by (simp add: newActionExecutor_def getStatus_def)

lemma repos_new: "repos (newActionExecutor n b) = Map.empty"
  by (simp add: newActionExecutor_def)

lemma getStatus_empty: "getStatus Map.empty r = zeroStatus"
  by (simp add: getStatus_def)

lemma getStatus_upd: "getStatus (m(k \<mapsto> v)) r = (if r = k then v else getStatus m r)"
  by (simp add: getStatus_def)

lemma getStatus_enqueueRepo:
  "\<not> IsZero now \<Longrightarrow>
   getStatus (repos (enqueueRepo x repo now)) r =
     (if r = repo then (getStatus (repos x) repo)\<lparr>EnqueuedAt := now\<rparr> else getStatus (repos x) r)"
  by (simp add: repos_enqueueRepo getStatus_upd)

lemma collectPatches_eq:
  "collectPatches sts patches =
     patches @ map Patch (filter (\<lambda>st. Patch st \<noteq> zeroPatch \<and> Err st = None) sts)"
  by (induction sts arbitrary: patches) auto

section \<open>The claims about status updates and patches\<close>

text \<open>
  Claim C1. After any finite sequence of calls of \<^verbatim>\<open>updateRepoStatus\<close>, for
  whatever repositories, the status stored for a repository is the field-wise merge of the
  statuses passed for that repository, in call order, over what was stored before: in each
  of the six fields the last incoming value that is not empty wins, and an empty incoming
  value keeps the value stored. A repository for which no call was made keeps its entry.
  No call, for whatever repository, turns a field that was set into an empty one.
\<close>

theorem delta_merge_last_wins:
  "repos (runUpdates x calls) repo =
     (if statusesFor repo calls = [] then repos x repo
      else Some (mergeLastWins (getStatus (repos x) repo) (statusesFor repo calls)))
   \<and> (LogFile (getStatus (repos x) repo) \<noteq> '''' \<longrightarrow>
        LogFile (getStatus (repos (updateRepoStatus x r status)) repo) \<noteq> '''')
   \<and> (\<not> IsZero (EnqueuedAt (getStatus (repos x) repo)) \<longrightarrow>
        \<not> IsZero (EnqueuedAt (getStatus (repos (updateRepoStatus x r status)) repo)))
   \<and> (\<not> IsZero (StartedAt (getStatus (repos x) repo)) \<longrightarrow>
        \<not> IsZero (StartedAt (getStatus (repos (updateRepoStatus x r status)) repo)))
   \<and> (\<not> IsZero (FinishedAt (getStatus (repos x) repo)) \<longrightarrow>
        \<not> IsZero (FinishedAt (getStatus (repos (updateRepoStatus x r status)) repo)))
   \<and> (Patch (getStatus (repos x) repo) \<noteq> zeroPatch \<longrightarrow>
        Patch (getStatus (repos (updateRepoStatus x r status)) repo) \<noteq> zeroPatch)
   \<and> (Err (getStatus (repos x) repo) \<noteq> None \<longrightarrow>
        Err (getStatus (repos (updateRepoStatus x r status)) repo) \<noteq> None)"
proof -
  have stored: "repos (runUpdates x calls) repo =
     (if statusesFor repo calls = [] then repos x repo
      else Some (mergeLastWins (getStatus (repos x) repo) (statusesFor repo calls)))"
  proof (cases "statusesFor repo calls = []")
    case True
    then show ?thesis by (simp add: repos_runUpdates_untouched)
  next
    case False
    then obtain st where st: "repos (runUpdates x calls) repo = Some st"
      using repos_runUpdates_touched [of repo calls x] by auto
    then have "getStatus (repos (runUpdates x calls)) repo = st"
      by (simp add: getStatus_def)
    with st False show ?thesis by (simp add: getStatus_runUpdates)
  qed
  have kept: "getStatus (repos (updateRepoStatus x r status)) repo = getStatus (repos x) repo
      \<or> getStatus (repos (updateRepoStatus x r status)) repo
          = deltaUpdate (getStatus (repos x) repo) status"
    by (simp add: getStatus_updateRepoStatus)
  from kept show ?thesis
    by (intro conjI stored impI) (auto simp: deltaUpdate_fields split: if_splits)
qed

text \<open>
  Claim C1 on an example: all six fields of repository 0 are set; an update of that
  repository with the zero status and an update of another repository leave them as they
  are.
\<close>

theorem delta_merge_last_wins_witness:
  "LogFile (getStatus (repos exampleExecutor) 0) \<noteq> ''''
   \<and> \<not> IsZero (EnqueuedAt (getStatus (repos exampleExecutor) 0))
   \<and> \<not> IsZero (StartedAt (getStatus (repos exampleExecutor) 0))
   \<and> \<not> IsZero (FinishedAt (getStatus (repos exampleExecutor) 0))
   \<and> Patch (getStatus (repos exampleExecutor) 0) \<noteq> zeroPatch
   \<and> Err (getStatus (repos exampleExecutor) 0) \<noteq> None
   \<and> getStatus (repos (updateRepoStatus exampleExecutor 0 zeroStatus)) 0 = exampleStatus
   \<and> repos (runUpdates exampleExecutor [(0, zeroStatus), (1, exampleStatus)]) 0
       = Some exampleStatus"
  using delta_merge_last_wins [of exampleExecutor "[(0, zeroStatus), (1, exampleStatus)]" 0 0 zeroStatus]
  by (simp add: ex_status statusesFor_def mergeLastWins_def lastNonEmpty_def getStatus_updateRepoStatus
      deltaUpdate_def exampleStatus_def zeroStatus_def IsZero_def exampleTime_def zeroTime_def
      zeroPatch_def Let_def)

text \<open>
  Claim C2. Whatever order the range over the map takes, \<^verbatim>\<open>allPatches\<close>
  returns, as a multiset, exactly the patches of the repositories in the map whose stored
  status has no error and a patch that is not the zero patch.
\<close>

theorem allPatches_exact:
  assumes "rangeOrder ks (repos x)"
  shows "mset (allPatches ks x) =
     image_mset (\<lambda>k. Patch (getStatus (repos x) k))
       (mset_set {k \<in> dom (repos x).
          Err (getStatus (repos x) k) = None \<and> Patch (getStatus (repos x) k) \<noteq> zeroPatch})"
proof -
  let ?P = "\<lambda>k. Err (getStatus (repos x) k) = None \<and> Patch (getStatus (repos x) k) \<noteq> zeroPatch"
  from assms have d: "distinct ks" and k: "set ks = dom (repos x)"
    by (simp_all add: rangeOrder_def)
  have "allPatches ks x = map (\<lambda>k. Patch (getStatus (repos x) k)) (filter ?P ks)"
    by (simp add: allPatches_def collectPatches_eq filter_map comp_def conj_commute)
  then have "mset (allPatches ks x) =
      image_mset (\<lambda>k. Patch (getStatus (repos x) k)) (filter_mset ?P (mset ks))"
    by simp
  also have "mset ks = mset_set (dom (repos x))"
    using d k by (metis mset_set_set)
  also have "filter_mset ?P (mset_set (dom (repos x))) = mset_set {k \<in> dom (repos x). ?P k}"
    by (rule filter_mset_mset_set) (metis k List.finite_set)
  finally show ?thesis .
qed

text \<open>
  Claim C2 on an example: repository 0 holds a patch and an error, repository 1 the
  same patch and no error; only the patch of repository 1 is returned.
\<close>

theorem allPatches_exact_witness:
  "rangeOrder [1, 0] (repos (updateRepoStatus exampleExecutor 1 (exampleStatus\<lparr>Err := None\<rparr>)))
   \<and> mset (allPatches [1, 0] (updateRepoStatus exampleExecutor 1 (exampleStatus\<lparr>Err := None\<rparr>)))
      = {#PatchInput ''repo'' ''rev'' ''ref'' ''diff''#}"
proof -
  let ?x = "updateRepoStatus exampleExecutor 1 (exampleStatus\<lparr>Err := None\<rparr>)"
  have h: "rangeOrder [1, 0] (repos ?x)"
    by (auto simp: rangeOrder_def repos_updateRepoStatus exampleExecutor_def newActionExecutor_def)
  have other: "getStatus (repos exampleExecutor) (Suc 0) = zeroStatus"
    by (simp add: exampleExecutor_def getStatus_updateRepoStatus getStatus_new)
  have "allPatches [1, 0] ?x = [PatchInput ''repo'' ''rev'' ''ref'' ''diff'']"
    by (simp add: allPatches_def getStatus_updateRepoStatus ex_status other deltaUpdate_fields
        exampleStatus_def zeroPatch_def zeroStatus_def)
  with h allPatches_exact [OF h] show ?thesis by simp
qed

text \<open>
  Claim C6, as stated, fails: the observer is not called after the mutex is given back.
  On a new executor with an observer, the one call of the observer that
  \<^verbatim>\<open>updateRepoStatus\<close> makes happens while the mutex is held.
\<close>

theorem observer_after_unlock_counterexample:
  "callsWithLock False
     (trace (updateRepoStatus (newActionExecutor 2 True) (0::nat) exampleStatus)) = [True]"
  by (simp add: updateRepoStatus_def newActionExecutor_def Let_def)

text \<open>
  Claim C6, amended. A call of \<^verbatim>\<open>updateRepoStatus\<close> takes the mutex, stores
  the merged status, then, when an observer is configured, calls it exactly once, with the
  whole map as it is after the store and with the mutex still held, and gives the mutex
  back last; when no observer is configured, no call of an observer is made.
\<close>

theorem observer_called_under_lock:
  "trace (updateRepoStatus x repo status) =
     trace x @ [Lock]
       @ (if onUpdate x
          then [OnUpdate ((repos x)(repo \<mapsto> deltaUpdate (getStatus (repos x) repo) status))]
          else [])
       @ [Unlock]
   \<and> repos (updateRepoStatus x repo status)
       = (repos x)(repo \<mapsto> deltaUpdate (getStatus (repos x) repo) status)
   \<and> callsWithLock False (drop (length (trace x)) (trace (updateRepoStatus x repo status)))
       = (if onUpdate x then [True] else [])"
  by (simp add: updateRepoStatus_def Let_def)

text \<open>
  Claim C8, as stated, fails: a second \<^verbatim>\<open>enqueueRepo\<close> for the same
  repository, at a later time, changes the stored status.
\<close>

theorem enqueueRepo_twice_counterexample:
  "repos (enqueueRepo (enqueueRepo (newActionExecutor 2 False) (0::nat) (exampleTime 1)) 0
            (exampleTime 2)) 0
   \<noteq> repos (enqueueRepo (newActionExecutor 2 False) (0::nat) (exampleTime 1)) 0"
  by (simp add: repos_enqueueRepo getStatus_upd IsZero_exampleTime getStatus_new
      zeroStatus_def exampleTime_inject)

text \<open>
  Claim C8, amended. When the clock does not read the zero time,
  \<^verbatim>\<open>enqueueRepo\<close> for a repository that is not in the map stores a status in
  which only the enqueued timestamp is set; in general it stores the status that was there
  with the enqueued timestamp replaced by the time of the call. So a second call for the
  same repository keeps every other field and leaves the timestamp of the later call.
\<close>

theorem enqueueRepo_records_time:
  "\<not> IsZero now \<Longrightarrow>
   (repos x repo = None \<longrightarrow>
      repos (enqueueRepo x repo now) repo = Some (zeroStatus\<lparr>EnqueuedAt := now\<rparr>))
   \<and> repos (enqueueRepo x repo now) repo = Some ((getStatus (repos x) repo)\<lparr>EnqueuedAt := now\<rparr>)
   \<and> (\<not> IsZero now1 \<longrightarrow>
        repos (enqueueRepo (enqueueRepo x repo now1) repo now) repo
          = Some ((getStatus (repos x) repo)\<lparr>EnqueuedAt := now\<rparr>))"
  by (simp add: repos_enqueueRepo getStatus_upd) (simp add: getStatus_def)

text \<open>
  Claim C8, amended, on an example: two calls on a new executor, at times 1 and 2.
\<close>

theorem enqueueRepo_records_time_witness:
  "\<not> IsZero (exampleTime 2) \<and> \<not> IsZero (exampleTime 1)
   \<and> repos (newActionExecutor 2 False) (0::nat) = None
   \<and> repos (enqueueRepo (newActionExecutor 2 False) (0::nat) (exampleTime 2)) 0
       = Some (zeroStatus\<lparr>EnqueuedAt := exampleTime 2\<rparr>)
   \<and> repos (enqueueRepo (enqueueRepo (newActionExecutor 2 False) (0::nat) (exampleTime 1)) 0
         (exampleTime 2)) 0
       = Some (zeroStatus\<lparr>EnqueuedAt := exampleTime 2\<rparr>)"
  using enqueueRepo_records_time [of "exampleTime 2" "newActionExecutor 2 False" "0::nat"
      "exampleTime 1"]
  by (simp add: IsZero_exampleTime getStatus_empty repos_new)

text \<open>
  Claim C9. Once the stored status of a repository has an error, a call of
  \<^verbatim>\<open>updateRepoStatus\<close>, for whatever repository, leaves it with an error; an
  incoming nil error keeps the stored error as it is; and so does every sequence of
  calls.
\<close>

theorem error_never_cleared:
  "(Err (getStatus (repos x) repo) \<noteq> None \<longrightarrow>
      Err (getStatus (repos (updateRepoStatus x r status)) repo) \<noteq> None)
   \<and> (Err status = None \<longrightarrow>
      Err (getStatus (repos (updateRepoStatus x repo status)) repo)
        = Err (getStatus (repos x) repo))
   \<and> (Err (getStatus (repos x) repo) \<noteq> None \<longrightarrow>
      Err (getStatus (repos (runUpdates x calls)) repo) \<noteq> None)"
proof (intro conjI impI)
  assume "Err (getStatus (repos x) repo) \<noteq> None"
  then show "Err (getStatus (repos (updateRepoStatus x r status)) repo) \<noteq> None"
    by (rule Err_kept_update)
next
  assume "Err status = None"
  then show "Err (getStatus (repos (updateRepoStatus x repo status)) repo)
        = Err (getStatus (repos x) repo)"
    by (simp add: getStatus_updateRepoStatus deltaUpdate_fields)
next
  assume "Err (getStatus (repos x) repo) \<noteq> None"
  then show "Err (getStatus (repos (runUpdates x calls)) repo) \<noteq> None"
  proof (induction calls arbitrary: x)
    case Nil
    then show ?case by simp
  next
    case (Cons c calls)
    obtain r' st where c: "c = (r', st)" by (cases c)
    from Cons.prems have "Err (getStatus (repos (updateRepoStatus x r' st)) repo) \<noteq> None"
      by (rule Err_kept_update)
    then show ?case unfolding c runUpdates.simps by (rule Cons.IH)
  qed
qed

text \<open>
  Claim C9 on an example: repository 0 has an error, and updates with the zero status
  keep it.
\<close>

theorem error_never_cleared_witness:
  "Err (getStatus (repos exampleExecutor) 0) \<noteq> None
   \<and> Err zeroStatus = None
   \<and> Err (getStatus (repos (updateRepoStatus exampleExecutor 0 zeroStatus)) 0)
       = Some (Failure ''boom'')
   \<and> Err (getStatus (repos (runUpdates exampleExecutor [(0, zeroStatus), (1, zeroStatus)])) 0)
       \<noteq> None"
  using error_never_cleared [of exampleExecutor 0 0 zeroStatus "[(0, zeroStatus), (1, zeroStatus)]"]
  by (simp add: ex_status exampleStatus_def zeroStatus_def getStatus_updateRepoStatus
      deltaUpdate_fields)

section \<open>Properties of a run\<close>

text \<open>
  The invariants hold in the initial states and are kept by every step.
\<close>

lemma updateRepoStatus_frame:
  "par (updateRepoStatus x r st) = par x"
  "doneCh (updateRepoStatus x r st) = doneCh x"
  "doneEnqueuing (updateRepoStatus x r st) = doneEnqueuing x"
  "onUpdate (updateRepoStatus x r st) = onUpdate x"
  by (simp_all add: updateRepoStatus_def Let_def)

lemma enqueueRepo_frame:
  "par (enqueueRepo x r now) = par x"
  "doneCh (enqueueRepo x r now) = doneCh x"
  "doneEnqueuing (enqueueRepo x r now) = doneEnqueuing x"
  "onUpdate (enqueueRepo x r now) = onUpdate x"
  by (simp_all add: enqueueRepo_def updateRepoStatus_frame)

lemma active_Nil: "active [] = 0"
  by (simp add: active_def)

lemma active_snoc: "active (ws @ [(r, p)]) = (if p = Exited then active ws else Suc (active ws))"
  by (simp add: active_def)

lemma active_update:
  assumes "i < length ws" "ws ! i = (r, q)"
  shows "active (ws[i := (r, p)]) + (if q = Exited then 0 else 1)
       = active ws + (if p = Exited then 0 else 1)"
proof -
  from assms have ws: "ws = take i ws @ (r, q) # drop (Suc i) ws"
    by (metis id_take_nth_drop)
  from assms have upd: "ws[i := (r, p)] = take i ws @ (r, p) # drop (Suc i) ws"
    by (simp add: upd_conv_take_nth_drop)
  have "active ws = active (take i ws) + (if q = Exited then 0 else 1) + active (drop (Suc i) ws)"
    by (subst ws) (simp add: active_def)
  moreover have "active (ws[i := (r, p)])
      = active (take i ws) + (if p = Exited then 0 else 1) + active (drop (Suc i) ws)"
    by (subst upd) (simp add: active_def)
  ultimately show ?thesis by simp
qed

lemma active_zero_Exited:
  "active ws = 0 \<Longrightarrow> i < length ws \<Longrightarrow> snd (ws ! i) = Exited"
  by (auto simp: active_def filter_empty_conv)

lemma map_fst_update:
  "i < length ws \<Longrightarrow> ws ! i = (r, q) \<Longrightarrow> map fst (ws[i := (r, p)]) = map fst ws"
  by (simp add: map_update) (metis fst_conv list_update_id map_update)

lemma inv_start_initial: "inv_start (initial n b)"
  by (simp add: inv_start_def initial_def newActionExecutor_def)

lemma inv_counts_initial: "inv_counts (initial n b)"
  by (simp add: inv_counts_def initial_def newActionExecutor_def NewRun_def active_Nil)

lemma inv_wait_initial: "inv_wait (initial n b)"
  by (simp add: inv_wait_def initial_def newActionExecutor_def)

lemma inv_start_step: "step s s' \<Longrightarrow> inv_start s \<Longrightarrow> inv_start s'"
proof (induction rule: step.induct)
  case (start_snapshot s ks)
  then show ?case by (simp add: inv_start_def dispatched_def rangeOrder_def)
next
  case (start_dispatch s repo rest)
  then show ?case by (simp add: inv_start_def dispatched_def)
qed (auto simp: inv_start_def dispatched_def enqueueRepo_frame updateRepoStatus_frame
       map_fst_update split: startPc.splits)


lemma inv_counts_step: "step s s' \<Longrightarrow> inv_counts s \<Longrightarrow> inv_counts s'"
proof (induction rule: step.induct)
  case (start_dispatch s repo rest)
  then show ?case
    by (auto simp: inv_counts_def active_snoc Acquire_def canAcquire_def)
next
  case (do_return i s repo status err)
  with active_update [of i "workers s" repo Doing "Returned err"] show ?case
    by (auto simp: inv_counts_def updateRepoStatus_frame)
next
  case (worker_error i s repo err)
  with active_update [of i "workers s" repo "Returned err" Releasing] show ?case
    by (cases err) (auto simp: inv_counts_def Error_def)
next
  case (worker_release i s repo)
  with active_update [of i "workers s" repo Releasing Exited] show ?case
    by (auto simp: inv_counts_def Release_def)
qed (simp_all add: inv_counts_def enqueueRepo_frame updateRepoStatus_frame active_snoc
       Acquire_def)

lemma inv_wait_step:
  "step s s' \<Longrightarrow> inv_start s \<Longrightarrow> inv_counts s \<Longrightarrow> inv_wait s \<Longrightarrow> inv_wait s'"
proof (induction rule: step.induct)
  case (start_dispatch s repo rest)
  then show ?case
    by (auto simp: inv_wait_def inv_start_def split: waitPc.splits)
next
  case (do_return i s repo status err)
  with active_zero_Exited [of "workers s" i] show ?case
    by (auto simp: inv_wait_def updateRepoStatus_frame split: waitPc.splits)
next
  case (worker_error i s repo err)
  with active_zero_Exited [of "workers s" i] show ?case
    by (auto simp: inv_wait_def split: waitPc.splits)
next
  case (worker_release i s repo)
  with active_zero_Exited [of "workers s" i] show ?case
    by (auto simp: inv_wait_def split: waitPc.splits)
next
  case (wait_par s err)
  then show ?case
    by (auto simp: inv_wait_def inv_counts_def Wait_def split: waitPc.splits if_splits)
qed (auto simp: inv_wait_def enqueueRepo_frame updateRepoStatus_frame split: waitPc.splits)

lemma getStatus_terminal_kept:
  "terminal (getStatus (repos x) repo) \<Longrightarrow>
   terminal (getStatus (repos (updateRepoStatus x r status)) repo)"
  by (auto simp: terminal_def getStatus_updateRepoStatus deltaUpdate_fields)

lemma getStatus_terminal_set:
  "terminal status \<Longrightarrow> terminal (getStatus (repos (updateRepoStatus x repo status)) repo)"
  by (simp add: terminal_def getStatus_updateRepoStatus deltaUpdate_fields)

lemma getStatus_Err_set:
  "Err status = Some e \<Longrightarrow> Err (getStatus (repos (updateRepoStatus x repo status)) repo) \<noteq> None"
  by (simp add: getStatus_updateRepoStatus deltaUpdate_fields)

lemma inv_terminal_initial: "inv_terminal (initial n b)"
  by (simp add: inv_terminal_def initial_def)

lemma inv_terminal_update:
  assumes "inv_terminal s"
  shows "inv_terminal (s\<lparr>ex := updateRepoStatus (ex s) r status\<rparr>)"
  unfolding inv_terminal_def
proof (intro ballI conjI impI allI)
  fix w
  assume w: "w \<in> set (workers (s\<lparr>ex := updateRepoStatus (ex s) r status\<rparr>))"
    and "snd w \<noteq> Doing"
  with assms have "terminal (getStatus (repos (ex s)) (fst w))"
    by (simp add: inv_terminal_def)
  then show "terminal (getStatus (repos (ex (s\<lparr>ex := updateRepoStatus (ex s) r status\<rparr>))) (fst w))"
    by (simp add: getStatus_terminal_kept)
next
  fix w e
  assume w: "w \<in> set (workers (s\<lparr>ex := updateRepoStatus (ex s) r status\<rparr>))"
    and "snd w = Returned (Some e)"
  with assms have "Err (getStatus (repos (ex s)) (fst w)) \<noteq> None"
    by (simp add: inv_terminal_def)
  then have "Err (getStatus (repos (updateRepoStatus (ex s) r status)) (fst w)) \<noteq> None"
    by (rule Err_kept_update)
  then show "Err (getStatus (repos (ex (s\<lparr>ex := updateRepoStatus (ex s) r status\<rparr>))) (fst w))
      \<noteq> None"
    by simp
qed

lemma inv_terminal_same:
  "inv_terminal s \<Longrightarrow> repos (ex s') = repos (ex s) \<Longrightarrow> set (workers s') \<subseteq> set (workers s) \<Longrightarrow>
   inv_terminal s'"
  by (auto simp: inv_terminal_def)

lemma inv_terminal_step: "step s s' \<Longrightarrow> inv_terminal s \<Longrightarrow> inv_terminal s'"
proof (induction rule: step.induct)
  case (enqueue s repo now)
  then show ?case by (simp add: enqueueRepo_def inv_terminal_update)
next
  case (start_dispatch s repo rest)
  then show ?case by (auto simp: inv_terminal_def)
next
  case (do_update i s repo status)
  then show ?case by (simp add: inv_terminal_update)
next
  case (do_return i s repo status err)
  let ?x = "updateRepoStatus (ex s) repo status"
  from do_return have old: "inv_terminal (s\<lparr>ex := ?x\<rparr>)" by (simp add: inv_terminal_update)
  show ?case unfolding inv_terminal_def
  proof
    fix w
    assume "w \<in> set (workers (s\<lparr>ex := ?x, workers := (workers s)[i := (repo, Returned err)]\<rparr>))"
    then have "w = (repo, Returned err) \<or> w \<in> set (workers s)"
      using set_update_subset_insert [of "workers s" i "(repo, Returned err)"] by auto
    then show "(snd w \<noteq> Doing \<longrightarrow>
          terminal (getStatus (repos (ex (s\<lparr>ex := ?x,
            workers := (workers s)[i := (repo, Returned err)]\<rparr>))) (fst w))) \<and>
        (\<forall>e. snd w = Returned (Some e) \<longrightarrow>
          Err (getStatus (repos (ex (s\<lparr>ex := ?x,
            workers := (workers s)[i := (repo, Returned err)]\<rparr>))) (fst w)) \<noteq> None)"
    proof
      assume "w = (repo, Returned err)"
      with do_return show ?thesis
        by (auto simp: getStatus_terminal_set dest: getStatus_Err_set)
    next
      assume "w \<in> set (workers s)"
      with old show ?thesis by (auto simp: inv_terminal_def)
    qed
  qed
next
  case (worker_error i s repo err)
  have "(repo, Returned err) \<in> set (workers s)"
    using worker_error(1,2) nth_mem [of i "workers s"] by simp
  with worker_error(3) have t: "terminal (getStatus (repos (ex s)) repo)"
    by (force simp: inv_terminal_def)
  show ?case unfolding inv_terminal_def
  proof
    fix w
    assume "w \<in> set (workers (s\<lparr>ex := (ex s)\<lparr>par := (case err of None \<Rightarrow> par (ex s)
        | Some e \<Rightarrow> Error e (par (ex s)))\<rparr>, workers := (workers s)[i := (repo, Releasing)]\<rparr>))"
    then have "w = (repo, Releasing) \<or> w \<in> set (workers s)"
      using set_update_subset_insert [of "workers s" i "(repo, Releasing)"] by auto
    with t worker_error(3) show "(snd w \<noteq> Doing \<longrightarrow>
          terminal (getStatus (repos (ex (s\<lparr>ex := (ex s)\<lparr>par := (case err of None \<Rightarrow> par (ex s)
            | Some e \<Rightarrow> Error e (par (ex s)))\<rparr>,
            workers := (workers s)[i := (repo, Releasing)]\<rparr>))) (fst w))) \<and>
        (\<forall>e. snd w = Returned (Some e) \<longrightarrow>
          Err (getStatus (repos (ex (s\<lparr>ex := (ex s)\<lparr>par := (case err of None \<Rightarrow> par (ex s)
            | Some e \<Rightarrow> Error e (par (ex s)))\<rparr>,
            workers := (workers s)[i := (repo, Releasing)]\<rparr>))) (fst w)) \<noteq> None)"
      by (auto simp: inv_terminal_def)
  qed
next
  case (worker_release i s repo)
  have "(repo, Releasing) \<in> set (workers s)"
    using worker_release(1,2) nth_mem [of i "workers s"] by simp
  with worker_release(3) have t: "terminal (getStatus (repos (ex s)) repo)"
    by (force simp: inv_terminal_def)
  show ?case unfolding inv_terminal_def
  proof
    fix w
    assume "w \<in> set (workers (s\<lparr>ex := (ex s)\<lparr>par := Release (par (ex s))\<rparr>,
        workers := (workers s)[i := (repo, Exited)]\<rparr>))"
    then have "w = (repo, Exited) \<or> w \<in> set (workers s)"
      using set_update_subset_insert [of "workers s" i "(repo, Exited)"] by auto
    with t worker_release(3) show "(snd w \<noteq> Doing \<longrightarrow>
          terminal (getStatus (repos (ex (s\<lparr>ex := (ex s)\<lparr>par := Release (par (ex s))\<rparr>,
            workers := (workers s)[i := (repo, Exited)]\<rparr>))) (fst w))) \<and>
        (\<forall>e. snd w = Returned (Some e) \<longrightarrow>
          Err (getStatus (repos (ex (s\<lparr>ex := (ex s)\<lparr>par := Release (par (ex s))\<rparr>,
            workers := (workers s)[i := (repo, Exited)]\<rparr>))) (fst w)) \<noteq> None)"
      by (auto simp: inv_terminal_def)
  qed
qed (auto simp: inv_terminal_def)

lemma reachable_inv:
  "reachable s \<Longrightarrow> inv_start s \<and> inv_counts s \<and> inv_wait s \<and> inv_terminal s"
proof (induction rule: reachable.induct)
  case (reachable_initial parallelism observer)
  show ?case
    by (simp add: inv_start_initial inv_counts_initial inv_wait_initial inv_terminal_initial)
next
  case (reachable_step s s')
  then show ?case
    by (simp add: inv_start_step inv_counts_step inv_wait_step inv_terminal_step)
qed

lemma reachable_steps: "step\<^sup>*\<^sup>* s s' \<Longrightarrow> reachable s \<Longrightarrow> reachable s'"
  by (induction rule: rtranclp_induct) (auto intro: reachable_step)

lemma snapshot_step:
  "step s0 s1 \<Longrightarrow> startPc s0 = Snapshotting \<Longrightarrow> startPc s1 \<noteq> Snapshotting \<Longrightarrow>
   rangeOrder (allRepos s1) (repos (ex s0)) \<and> startPc s1 = Dispatching (allRepos s1)"
  by (induction rule: step.induct) auto

lemma allRepos_step:
  "step s s' \<Longrightarrow> startPc s = Dispatching rest \<or> startPc s = StartReturned \<Longrightarrow>
   allRepos s' = allRepos s \<and> ((\<exists>rest'. startPc s' = Dispatching rest') \<or> startPc s' = StartReturned)"
  by (induction rule: step.induct) auto

lemma allRepos_steps:
  "step\<^sup>*\<^sup>* s s' \<Longrightarrow> (\<exists>rest. startPc s = Dispatching rest) \<or> startPc s = StartReturned \<Longrightarrow>
   allRepos s' = allRepos s \<and> ((\<exists>rest'. startPc s' = Dispatching rest') \<or> startPc s' = StartReturned)"
proof (induction rule: rtranclp_induct)
  case base
  then show ?case by simp
next
  case (step y z)
  then have y: "allRepos y = allRepos s"
    and pc: "(\<exists>rest'. startPc y = Dispatching rest') \<or> startPc y = StartReturned"
    by simp_all
  from pc obtain rest' where "startPc y = Dispatching rest' \<or> startPc y = StartReturned"
    by auto
  from allRepos_step [OF step.hyps(2) this] y show ?case by simp
qed

lemma active_zero_all: "active ws = 0 \<Longrightarrow> \<forall>w\<in>set ws. snd w = Exited"
  by (auto simp: active_def filter_empty_conv)

text \<open>
  What is left to do never grows, and a run that has started can always take a step that
  takes away from it, until it is complete: no permit is ever lost, so the loop is not
  blocked for good, and a worker can always make its next move.
\<close>

lemma limit_step: "step s s' \<Longrightarrow> limit (par (ex s')) = limit (par (ex s))"
  by (induction rule: step.induct)
    (simp_all add: enqueueRepo_frame updateRepoStatus_frame Acquire_def Release_def Error_def
      split: option.splits)

lemma limit_steps: "step\<^sup>*\<^sup>* s s' \<Longrightarrow> limit (par (ex s')) = limit (par (ex s))"
  by (induction rule: rtranclp_induct) (simp_all add: limit_step)

lemma started_step: "step s s' \<Longrightarrow> started s \<Longrightarrow> started s' \<and> allRepos s' = allRepos s"
  by (induction rule: step.induct) (auto simp: started_def)

lemma started_steps:
  "step\<^sup>*\<^sup>* s s' \<Longrightarrow> started s \<Longrightarrow> started s' \<and> allRepos s' = allRepos s"
  by (induction rule: rtranclp_induct) (auto dest: started_step)

lemma rank_sum_update:
  assumes "i < length ws" "ws ! i = (r, q)"
  shows "sum_list (map (\<lambda>w. rank (snd w)) (ws[i := (r, p)])) + rank q
       = sum_list (map (\<lambda>w. rank (snd w)) ws) + rank p"
proof -
  from assms have ws: "ws = take i ws @ (r, q) # drop (Suc i) ws"
    by (metis id_take_nth_drop)
  from assms have upd: "ws[i := (r, p)] = take i ws @ (r, p) # drop (Suc i) ws"
    by (simp add: upd_conv_take_nth_drop)
  have "sum_list (map (\<lambda>w. rank (snd w)) ws)
      = sum_list (map (\<lambda>w. rank (snd w)) (take i ws)) + rank q
        + sum_list (map (\<lambda>w. rank (snd w)) (drop (Suc i) ws))"
    by (subst ws) simp
  moreover have "sum_list (map (\<lambda>w. rank (snd w)) (ws[i := (r, p)]))
      = sum_list (map (\<lambda>w. rank (snd w)) (take i ws)) + rank p
        + sum_list (map (\<lambda>w. rank (snd w)) (drop (Suc i) ws))"
    by (subst upd) simp
  ultimately show ?thesis by simp
qed

lemma todo_step: "step s s' \<Longrightarrow> started s \<Longrightarrow> todo s' \<le> todo s"
proof (induction rule: step.induct)
  case (do_return i s repo status err)
  with rank_sum_update [of i "workers s" repo Doing "Returned err"] show ?case
    by (simp add: todo_def)
next
  case (worker_error i s repo err)
  with rank_sum_update [of i "workers s" repo "Returned err" Releasing] show ?case
    by (simp add: todo_def)
next
  case (worker_release i s repo)
  with rank_sum_update [of i "workers s" repo Releasing Exited] show ?case
    by (simp add: todo_def)
qed (simp_all add: todo_def started_def)

lemma terminal_finished: "terminal (zeroStatus\<lparr>FinishedAt := exampleTime 1\<rparr>)"
  by (simp add: terminal_def IsZero_exampleTime)

lemma progress:
  assumes r: "reachable s" and l: "1 \<le> limit (par (ex s))" and st: "started s"
    and nc: "\<not> complete s"
  shows "\<exists>s'. step s s' \<and> todo s' < todo s"
proof (cases "\<exists>w\<in>set (workers s). snd w \<noteq> Exited")
  case True
  then obtain i where i: "i < length (workers s)" and ne: "snd (workers s ! i) \<noteq> Exited"
    by (auto simp: in_set_conv_nth)
  obtain repo p where w: "workers s ! i = (repo, p)" by (cases "workers s ! i")
  with ne have p: "p \<noteq> Exited" by simp
  show ?thesis
  proof (cases p)
    case Doing
    let ?st = "zeroStatus\<lparr>FinishedAt := exampleTime 1\<rparr>"
    let ?s' = "s\<lparr>ex := updateRepoStatus (ex s) repo ?st,
                 workers := (workers s)[i := (repo, Returned None)]\<rparr>"
    have "step s ?s'"
      using i w Doing terminal_finished
      by (intro step.do_return) (simp_all add: zeroStatus_def)
    moreover have "todo ?s' < todo s"
      using rank_sum_update [of i "workers s" repo Doing "Returned None"] i w Doing
      by (simp add: todo_def)
    ultimately show ?thesis by blast
  next
    case (Returned err)
    let ?s' = "s\<lparr>ex := (ex s)\<lparr>par := (case err of None \<Rightarrow> par (ex s)
                                       | Some e \<Rightarrow> Error e (par (ex s)))\<rparr>,
                 workers := (workers s)[i := (repo, Releasing)]\<rparr>"
    have "step s ?s'" using i w Returned by (intro step.worker_error) simp_all
    moreover have "todo ?s' < todo s"
      using rank_sum_update [of i "workers s" repo "Returned err" Releasing] i w Returned
      by (simp add: todo_def)
    ultimately show ?thesis by blast
  next
    case Releasing
    let ?s' = "s\<lparr>ex := (ex s)\<lparr>par := Release (par (ex s))\<rparr>,
                 workers := (workers s)[i := (repo, Exited)]\<rparr>"
    have "step s ?s'" using i w Releasing by (intro step.worker_release) simp_all
    moreover have "todo ?s' < todo s"
      using rank_sum_update [of i "workers s" repo Releasing Exited] i w Releasing
      by (simp add: todo_def)
    ultimately show ?thesis by blast
  next
    case Exited
    with p show ?thesis by simp
  qed
next
  case False
  then have allEx: "\<forall>w\<in>set (workers s). snd w = Exited" by simp
  then have "active (workers s) = 0" by (simp add: active_def filter_empty_conv)
  with r have out: "outstanding (par (ex s)) = 0"
    using reachable_inv [of s] by (simp add: inv_counts_def)
  from r have i1: "inv_start s" and i4: "inv_terminal s" using reachable_inv [of s] by simp_all
  show ?thesis
  proof (cases "startPc s")
    case NotStarted
    with st show ?thesis by (simp add: started_def)
  next
    case Snapshotting
    with st show ?thesis by (simp add: started_def)
  next
    case (Dispatching rest)
    show ?thesis
    proof (cases rest)
      case Nil
      let ?s' = "s\<lparr>ex := (ex s)\<lparr>doneEnqueuing := True\<rparr>, startPc := StartReturned\<rparr>"
      have "step s ?s'" using Dispatching Nil by (intro step.start_close) simp
      moreover have "todo ?s' < todo s" using Dispatching Nil by (simp add: todo_def)
      ultimately show ?thesis by blast
    next
      case (Cons repo rest')
      let ?s' = "s\<lparr>ex := (ex s)\<lparr>par := Acquire (par (ex s))\<rparr>,
                   workers := workers s @ [(repo, Doing)], startPc := Dispatching rest'\<rparr>"
      have "step s ?s'" using Dispatching Cons out l
        by (intro step.start_dispatch) (simp_all add: canAcquire_def)
      moreover have "todo ?s' < todo s" using Dispatching Cons by (simp add: todo_def)
      ultimately show ?thesis by blast
    qed
  next
    case StartReturned
    with i1 have "dispatched s = allRepos s" by (simp add: inv_start_def)
    moreover from allEx i4
    have "\<forall>w\<in>set (workers s). snd w = Exited \<and> terminal (getStatus (repos (ex s)) (fst w))"
      by (auto simp: inv_terminal_def)
    ultimately have "complete s" using StartReturned by (simp add: complete_def)
    with nc show ?thesis by simp
  qed
qed

lemma can_complete:
  "reachable s \<Longrightarrow> 1 \<le> limit (par (ex s)) \<Longrightarrow> started s \<Longrightarrow>
   \<exists>s'. step\<^sup>*\<^sup>* s s' \<and> complete s'"
proof (induction "todo s" arbitrary: s rule: less_induct)
  case less
  show ?case
  proof (cases "complete s")
    case True
    then show ?thesis by blast
  next
    case False
    with less.prems obtain t where t: "step s t" and lt: "todo t < todo s"
      using progress [of s] by blast
    from less.prems(1) t have "reachable t" by (rule reachable_step)
    moreover from t less.prems(2) have "1 \<le> limit (par (ex t))" by (simp add: limit_step)
    moreover from t less.prems(3) have "started t" by (simp add: started_step)
    ultimately obtain s' where "step\<^sup>*\<^sup>* t s'" and c: "complete s'"
      using less.hyps [OF lt] by blast
    with t have "step\<^sup>*\<^sup>* s s'" by (simp add: converse_rtranclp_into_rtranclp)
    with c show ?thesis by blast
  qed
qed

text \<open>
  The call of \<^verbatim>\<open>wait\<close> as a function and as steps of a run agree: when the
  function returns, the four steps of the call can be taken one after the other and end
  in the state and with the error that the function gives.
\<close>

lemma wait_as_steps:
  assumes "waitPc s = WaitNotCalled" and "wait (ex s) = Returns (err, x')"
  shows "step\<^sup>*\<^sup>* s (s\<lparr>ex := x', waitPc := WaitReturned err\<rparr>)"
proof -
  from assms(2) have de: "doneEnqueuing (ex s)" and w: "Wait (par (ex s)) = Some err"
    and dc: "\<not> doneCh (ex s)" and x': "x' = (ex s)\<lparr>doneCh := True\<rparr>"
    by (auto simp: wait_def split: if_splits option.splits)
  let ?s1 = "s\<lparr>waitPc := WaitEnqueuing\<rparr>"
  let ?s2 = "?s1\<lparr>waitPc := WaitPar\<rparr>"
  let ?s3 = "?s2\<lparr>waitPc := WaitClosing err\<rparr>"
  let ?s4 = "?s3\<lparr>ex := (ex ?s3)\<lparr>doneCh := True\<rparr>, waitPc := WaitReturned err\<rparr>"
  have "step s ?s1" using assms(1) by (rule step.wait_call)
  then have "step\<^sup>*\<^sup>* s ?s1" by (rule r_into_rtranclp)
  moreover have "step ?s1 ?s2" by (rule step.wait_enqueuing) (simp_all add: de)
  ultimately have "step\<^sup>*\<^sup>* s ?s2" by (rule rtranclp.rtrancl_into_rtrancl)
  moreover have "step ?s2 ?s3" by (rule step.wait_par) (simp_all add: w)
  ultimately have "step\<^sup>*\<^sup>* s ?s3" by (rule rtranclp.rtrancl_into_rtrancl)
  moreover have "step ?s3 ?s4" by (rule step.wait_close) (simp_all add: dc)
  ultimately have "step\<^sup>*\<^sup>* s ?s4" by (rule rtranclp.rtrancl_into_rtrancl)
  moreover have "?s4 = s\<lparr>ex := x', waitPc := WaitReturned err\<rparr>" by (simp add: x')
  ultimately show ?thesis by simp
qed

text \<open>
  The example runs are runs; with a limit of zero the loop of \<^verbatim>\<open>start\<close>
  stays where it is.
\<close>

lemmas runA_defs = runA6_def runA5_def runA4_def runA3_def runA2_def runA1_def runA0_def
lemmas runB_defs = runB3_def runB2_def runB1_def runB0_def

lemma runA_steps:
  "step runA0 runA1" "step runA1 runA2" "step runA2 runA3" "step runA3 runA4"
  "step runA4 runA5" "step runA5 runA6"
proof -
  show "step runA0 runA1" unfolding runA1_def by (rule step.enqueue)
  show "step runA1 runA2" unfolding runA2_def
    by (rule step.start_begin) (simp add: runA1_def runA0_def initial_def)
  have "repos (ex runA2) = Map.empty(0 \<mapsto> zeroStatus\<lparr>EnqueuedAt := exampleTime 1\<rparr>)"
    by (simp add: runA2_def runA1_def runA0_def initial_def repos_enqueueRepo IsZero_exampleTime
        getStatus_empty repos_new)
  then have "rangeOrder [0] (repos (ex runA2))" by (simp add: rangeOrder_def)
  then show "step runA2 runA3" unfolding runA3_def
    by (rule step.start_snapshot [rotated]) (simp add: runA2_def)
  show "step runA3 runA4" unfolding runA4_def by (rule step.enqueue)
  show "step runA4 runA5" unfolding runA5_def
    by (rule step.start_dispatch)
      (simp_all add: runA4_def runA3_def runA2_def runA1_def runA0_def initial_def
        enqueueRepo_frame canAcquire_def newActionExecutor_def NewRun_def)
  show "step runA5 runA6" unfolding runA6_def
    by (rule step.start_close) (simp add: runA5_def)
qed

lemma runB_steps:
  "step runB0 runB1" "step runB1 runB2" "step runB2 runB3"
proof -
  show "step runB0 runB1" unfolding runB1_def
    by (rule step.start_begin) (simp add: runB0_def initial_def)
  have "rangeOrder [] (repos (ex runB1))"
    by (simp add: rangeOrder_def runB1_def runB0_def initial_def newActionExecutor_def)
  then show "step runB1 runB2" unfolding runB2_def
    by (rule step.start_snapshot [rotated]) (simp add: runB1_def)
  show "step runB2 runB3" unfolding runB3_def
    by (rule step.start_close) (simp add: runB2_def)
qed

lemma runA_reachable: "reachable runA2"
proof -
  have "reachable runA0" unfolding runA0_def by (rule reachable_initial)
  then have "reachable runA1" using runA_steps(1) by (rule reachable_step)
  then show ?thesis using runA_steps(2) by (rule reachable_step)
qed

lemma runB_reachable: "reachable runB3"
proof -
  have "reachable runB0" unfolding runB0_def by (rule reachable_initial)
  then have "reachable runB1" using runB_steps(1) by (rule reachable_step)
  then have "reachable runB2" using runB_steps(2) by (rule reachable_step)
  then show ?thesis using runB_steps(3) by (rule reachable_step)
qed

lemma failed_terminal:
  "terminal failedStatus" "Err failedStatus = Some (Failure ''boom'')"
  by (simp_all add: failedStatus_def terminal_def IsZero_exampleTime)

lemma runA6_fields:
  "workers runA6 = [(0, Doing)]"
  "par (ex runA6) = \<lparr>limit = 1, outstanding = 1, errs = []\<rparr>"
  "doneEnqueuing (ex runA6)" "\<not> doneCh (ex runA6)" "waitPc runA6 = WaitNotCalled"
  by (simp_all add: runA_defs initial_def enqueueRepo_frame newActionExecutor_def NewRun_def
      Acquire_def)

lemma runA_more_steps:
  "step runA6 runA7" "step runA7 runA8" "step runA8 runA9" "step runA9 runA10"
  "step runA10 runA11" "step runA11 runA12" "step runA12 runA13"
proof -
  show "step runA6 runA7" unfolding runA7_def
    by (rule step.do_return) (simp_all add: runA6_fields failed_terminal)
  show "step runA7 runA8" unfolding runA8_def
    by (rule step.worker_error) (simp_all add: runA7_def runA6_fields)
  show "step runA8 runA9" unfolding runA9_def
    by (rule step.worker_release) (simp_all add: runA8_def runA7_def runA6_fields)
  show "step runA9 runA10" unfolding runA10_def
    by (rule step.wait_call) (simp add: runA9_def runA8_def runA7_def runA6_fields)
  show "step runA10 runA11" unfolding runA11_def
    by (rule step.wait_enqueuing)
      (simp_all add: runA10_def runA9_def runA8_def runA7_def runA6_fields
        updateRepoStatus_frame)
  show "step runA11 runA12" unfolding runA12_def
    by (rule step.wait_par)
      (simp_all add: runA11_def runA10_def runA9_def runA8_def runA7_def runA6_fields
        updateRepoStatus_frame Wait_def firstError_def Error_def Release_def)
  show "step runA12 runA13" unfolding runA13_def
    by (rule step.wait_close)
      (simp_all add: runA12_def runA11_def runA10_def runA9_def runA8_def runA7_def runA6_fields
        updateRepoStatus_frame)
qed

lemma runA13_reachable: "reachable runA13"
proof -
  have "reachable runA3" using runA_reachable runA_steps(3) by (rule reachable_step)
  then have "reachable runA4" using runA_steps(4) by (rule reachable_step)
  then have "reachable runA5" using runA_steps(5) by (rule reachable_step)
  then have "reachable runA6" using runA_steps(6) by (rule reachable_step)
  then have "reachable runA7" using runA_more_steps(1) by (rule reachable_step)
  then have "reachable runA8" using runA_more_steps(2) by (rule reachable_step)
  then have "reachable runA9" using runA_more_steps(3) by (rule reachable_step)
  then have "reachable runA10" using runA_more_steps(4) by (rule reachable_step)
  then have "reachable runA11" using runA_more_steps(5) by (rule reachable_step)
  then have "reachable runA12" using runA_more_steps(6) by (rule reachable_step)
  then show ?thesis using runA_more_steps(7) by (rule reachable_step)
qed


lemma runA13_fields:
  "workers runA13 = [(0, Exited)]" "terminal (getStatus (repos (ex runA13)) 0)"
  "waitPc runA13 = WaitReturned (Some (Failure ''boom''))"
  by (simp_all add: runA13_def runA12_def runA11_def runA10_def runA9_def runA8_def runA7_def
      runA6_fields getStatus_terminal_set failed_terminal)

lemmas runC_defs = runC6_def runC5_def runC4_def runC3_def runC2_def runC1_def runC0_def

lemma runC4_fields:
  "startPc runC4 = Dispatching [0, 1]" "workers runC4 = []" "allRepos runC4 = [0, 1]"
  "par (ex runC4) = \<lparr>limit = 2, outstanding = 0, errs = []\<rparr>"
  by (simp_all add: runC_defs initial_def enqueueRepo_frame newActionExecutor_def NewRun_def)

lemma runC_steps:
  "step runC0 runC1" "step runC1 runC2" "step runC2 runC3" "step runC3 runC4"
  "step runC4 runC5" "step runC5 runC6" "step runC6 runC7" "step runC7 runC8"
proof -
  show "step runC0 runC1" unfolding runC1_def by (rule step.enqueue)
  show "step runC1 runC2" unfolding runC2_def by (rule step.enqueue)
  show "step runC2 runC3" unfolding runC3_def
    by (rule step.start_begin) (simp add: runC2_def runC1_def runC0_def initial_def)
  have "dom (repos (ex runC3)) = {0, 1}"
    by (auto simp: runC3_def runC2_def runC1_def runC0_def initial_def repos_enqueueRepo
        IsZero_exampleTime repos_new)
  then have "rangeOrder [0, 1] (repos (ex runC3))" by (auto simp: rangeOrder_def)
  then show "step runC3 runC4" unfolding runC4_def
    by (rule step.start_snapshot [rotated]) (simp add: runC3_def)
  show "step runC4 runC5" unfolding runC5_def
    by (rule step.start_dispatch) (simp_all add: runC4_fields canAcquire_def)
  show "step runC5 runC6" unfolding runC6_def
    by (rule step.start_dispatch)
      (simp_all add: runC5_def runC4_fields canAcquire_def Acquire_def)
  show "step runC6 runC7" unfolding runC7_def
    by (rule step.do_return) (simp_all add: runC6_def runC5_def runC4_fields failed_terminal)
  show "step runC7 runC8" unfolding runC8_def
    by (rule step.worker_error)
      (simp_all add: runC7_def runC6_def runC5_def runC4_fields)
qed

lemma runC7_fields:
  "workers runC7 = [(0, Returned (Some (Failure ''boom''))), (1, Doing)]"
  "startPc runC7 = Dispatching []" "allRepos runC7 = [0, 1]"
  "par (ex runC7) = \<lparr>limit = 2, outstanding = 2, errs = []\<rparr>"
  by (simp_all add: runC7_def runC6_def runC5_def runC4_fields updateRepoStatus_frame
      Acquire_def)

lemma runC8_fields:
  "workers runC8 = [(0, Releasing), (1, Doing)]"
  "errs (par (ex runC8)) = [Failure ''boom'']"
  by (simp_all add: runC8_def runC7_fields Error_def)

lemma runC_from_initial: "step\<^sup>*\<^sup>* (initial 2 False) runC7"
proof -
  have "step\<^sup>*\<^sup>* (initial 2 False) runC1"
    using runC_steps(1) unfolding runC0_def by (rule r_into_rtranclp)
  then have "step\<^sup>*\<^sup>* (initial 2 False) runC2"
    using runC_steps(2) by (rule rtranclp.rtrancl_into_rtrancl)
  then have "step\<^sup>*\<^sup>* (initial 2 False) runC3"
    using runC_steps(3) by (rule rtranclp.rtrancl_into_rtrancl)
  then have "step\<^sup>*\<^sup>* (initial 2 False) runC4"
    using runC_steps(4) by (rule rtranclp.rtrancl_into_rtrancl)
  then have "step\<^sup>*\<^sup>* (initial 2 False) runC5"
    using runC_steps(5) by (rule rtranclp.rtrancl_into_rtrancl)
  then have "step\<^sup>*\<^sup>* (initial 2 False) runC6"
    using runC_steps(6) by (rule rtranclp.rtrancl_into_rtrancl)
  then show ?thesis
    using runC_steps(7) by (rule rtranclp.rtrancl_into_rtrancl)
qed

lemma runC7_reachable: "reachable runC7"
  using runC_from_initial reachable_initial [of 2 False] by (rule reachable_steps)

lemmas runZ_defs = runZ3_def runZ2_def runZ1_def runZ0_def

lemma runZ_steps: "step runZ0 runZ1" "step runZ1 runZ2" "step runZ2 runZ3"
proof -
  show "step runZ0 runZ1" unfolding runZ1_def by (rule step.enqueue)
  show "step runZ1 runZ2" unfolding runZ2_def
    by (rule step.start_begin) (simp add: runZ1_def runZ0_def initial_def)
  have "repos (ex runZ2) = Map.empty(0 \<mapsto> zeroStatus\<lparr>EnqueuedAt := exampleTime 1\<rparr>)"
    by (simp add: runZ2_def runZ1_def runZ0_def initial_def repos_enqueueRepo IsZero_exampleTime
        getStatus_empty repos_new)
  then have "rangeOrder [0] (repos (ex runZ2))" by (simp add: rangeOrder_def)
  then show "step runZ2 runZ3" unfolding runZ3_def
    by (rule step.start_snapshot [rotated]) (simp add: runZ2_def)
qed

lemma runZ_from_initial: "step\<^sup>*\<^sup>* (initial 0 False) runZ3"
proof -
  have "step\<^sup>*\<^sup>* (initial 0 False) runZ1"
    using runZ_steps(1) unfolding runZ0_def by (rule r_into_rtranclp)
  then have "step\<^sup>*\<^sup>* (initial 0 False) runZ2"
    using runZ_steps(2) by (rule rtranclp.rtrancl_into_rtrancl)
  then show ?thesis
    using runZ_steps(3) by (rule rtranclp.rtrancl_into_rtrancl)
qed

lemma runZ_reachable: "reachable runZ2"
proof -
  have "reachable runZ0" unfolding runZ0_def by (rule reachable_initial)
  then have "reachable runZ1" using runZ_steps(1) by (rule reachable_step)
  then show ?thesis using runZ_steps(2) by (rule reachable_step)
qed

lemma FinishedAt_enqueueRepo:
  "FinishedAt (getStatus (repos (enqueueRepo x r now)) k) = FinishedAt (getStatus (repos x) k)"
  by (simp add: enqueueRepo_def getStatus_updateRepoStatus deltaUpdate_fields zeroStatus_def
      IsZero_zeroTime)

lemma blocked_step:
  assumes "step s t"
    and "startPc s = Dispatching [k] \<and> workers s = [] \<and> limit (par (ex s)) = 0
      \<and> \<not> terminal (getStatus (repos (ex s)) k)"
  shows "startPc t = Dispatching [k] \<and> workers t = [] \<and> limit (par (ex t)) = 0
      \<and> \<not> terminal (getStatus (repos (ex t)) k)"
  using assms
  by (induction rule: step.induct)
    (simp_all add: enqueueRepo_frame FinishedAt_enqueueRepo terminal_def canAcquire_def)

lemma blocked_steps:
  assumes "step\<^sup>*\<^sup>* s t"
    and "startPc s = Dispatching [k] \<and> workers s = [] \<and> limit (par (ex s)) = 0
      \<and> \<not> terminal (getStatus (repos (ex s)) k)"
  shows "startPc t = Dispatching [k] \<and> workers t = [] \<and> limit (par (ex t)) = 0
      \<and> \<not> terminal (getStatus (repos (ex t)) k)"
  using assms by (induction rule: rtranclp_induct) (auto dest: blocked_step)

lemma runZ3_blocked:
  "startPc runZ3 = Dispatching [0] \<and> workers runZ3 = [] \<and> limit (par (ex runZ3)) = 0
      \<and> \<not> terminal (getStatus (repos (ex runZ3)) 0)"
  by (simp add: runZ_defs initial_def enqueueRepo_frame newActionExecutor_def NewRun_def
      terminal_def FinishedAt_enqueueRepo getStatus_empty zeroStatus_def IsZero_zeroTime)

text \<open>
  A worker whose operation has failed reports the error, and the error stays recorded;
  every worker that has not gone can move; the permits stay within the limit.
\<close>

lemma worker_moves_by_report:
  assumes "step s s'" and "i < length (workers s)"
    and "workers s ! i = (repo, Returned (Some e))" and "workers s' ! i \<noteq> workers s ! i"
  shows "workers s' ! i = (repo, Releasing) \<and> errs (par (ex s')) = errs (par (ex s)) @ [e]"
  using assms
proof (induction rule: step.induct)
  case (start_dispatch s r rest)
  then show ?case by (simp add: nth_append)
next
  case (do_return j s r status err)
  then show ?case by (cases "j = i") auto
next
  case (worker_error j s r err)
  then show ?case by (cases "j = i") (auto simp: Error_def)
next
  case (worker_release j s r)
  then show ?case by (cases "j = i") auto
qed simp_all

lemma report_kept_step:
  assumes "step s t" and "i < length (workers s)"
    and "workers s ! i = (repo, Returned (Some e)) \<or> e \<in> set (errs (par (ex s)))"
  shows "i < length (workers t)
    \<and> (workers t ! i = (repo, Returned (Some e)) \<or> e \<in> set (errs (par (ex t))))"
  using assms
proof (induction rule: step.induct)
  case (start_dispatch s r rest)
  then show ?case by (auto simp: nth_append Acquire_def)
next
  case (do_return j s r status err)
  then show ?case by (cases "j = i") (auto simp: updateRepoStatus_frame)
next
  case (worker_error j s r err)
  then show ?case by (cases "j = i") (auto simp: Error_def split: option.splits)
next
  case (worker_release j s r)
  then show ?case by (cases "j = i") (auto simp: Release_def)
qed (auto simp: enqueueRepo_frame updateRepoStatus_frame)

lemma report_kept_steps:
  assumes "step\<^sup>*\<^sup>* s t" and "i < length (workers s)"
    and "workers s ! i = (repo, Returned (Some e)) \<or> e \<in> set (errs (par (ex s)))"
  shows "i < length (workers t)
    \<and> (workers t ! i = (repo, Returned (Some e)) \<or> e \<in> set (errs (par (ex t))))"
  using assms
proof (induction rule: rtranclp_induct)
  case base
  then show ?case by simp
next
  case (step y z)
  then have "i < length (workers y)"
    and "workers y ! i = (repo, Returned (Some e)) \<or> e \<in> set (errs (par (ex y)))"
    by simp_all
  with step.hyps(2) show ?case by (rule report_kept_step)
qed

lemma worker_can_move:
  assumes "j < length (workers s)" and "snd (workers s ! j) \<noteq> Exited"
  shows "\<exists>t. step s t \<and> rank (snd (workers t ! j)) < rank (snd (workers s ! j))"
proof -
  obtain repo p where w: "workers s ! j = (repo, p)" by (cases "workers s ! j")
  with assms(2) have p: "p \<noteq> Exited" by simp
  show ?thesis
  proof (cases p)
    case Doing
    let ?t = "s\<lparr>ex := updateRepoStatus (ex s) repo (zeroStatus\<lparr>FinishedAt := exampleTime 1\<rparr>),
                workers := (workers s)[j := (repo, Returned None)]\<rparr>"
    have "step s ?t"
      using assms(1) w Doing terminal_finished
      by (intro step.do_return) (simp_all add: zeroStatus_def)
    moreover have "rank (snd (workers ?t ! j)) < rank (snd (workers s ! j))"
      using assms(1) w Doing by simp
    ultimately show ?thesis by blast
  next
    case (Returned err)
    let ?t = "s\<lparr>ex := (ex s)\<lparr>par := (case err of None \<Rightarrow> par (ex s)
                                      | Some e \<Rightarrow> Error e (par (ex s)))\<rparr>,
                workers := (workers s)[j := (repo, Releasing)]\<rparr>"
    have "step s ?t" using assms(1) w Returned by (intro step.worker_error) simp_all
    moreover have "rank (snd (workers ?t ! j)) < rank (snd (workers s ! j))"
      using assms(1) w Returned by simp
    ultimately show ?thesis by blast
  next
    case Releasing
    let ?t = "s\<lparr>ex := (ex s)\<lparr>par := Release (par (ex s))\<rparr>,
                workers := (workers s)[j := (repo, Exited)]\<rparr>"
    have "step s ?t" using assms(1) w Releasing by (intro step.worker_release) simp_all
    moreover have "rank (snd (workers ?t ! j)) < rank (snd (workers s ! j))"
      using assms(1) w Releasing by simp
    ultimately show ?thesis by blast
  next
    case Exited
    with p show ?thesis by simp
  qed
qed

lemma running_le_active: "running ws \<le> active ws"
proof -
  have "length (filter (\<lambda>w. snd w = Doing) ws)
      \<le> length (filter (\<lambda>w. snd w \<noteq> Exited) ws)"
    by (induction ws) auto
  then show ?thesis by (simp add: running_def active_def)
qed

lemma within_limit_step:
  "step s s' \<Longrightarrow> int (outstanding (par (ex s))) \<le> max 0 (limit (par (ex s))) \<Longrightarrow>
   int (outstanding (par (ex s'))) \<le> max 0 (limit (par (ex s')))"
  by (induction rule: step.induct)
    (auto simp: enqueueRepo_frame updateRepoStatus_frame Acquire_def Release_def Error_def
      canAcquire_def split: option.splits)

lemma permits_within_limit:
  "reachable s \<Longrightarrow> int (active (workers s)) \<le> max 0 (limit (par (ex s)))"
proof -
  assume r: "reachable s"
  then have "int (outstanding (par (ex s))) \<le> max 0 (limit (par (ex s)))"
  proof (induction rule: reachable.induct)
    case (reachable_initial parallelism observer)
    show ?case by (simp add: initial_def newActionExecutor_def NewRun_def)
  next
    case (reachable_step s s')
    then show ?case by (simp add: within_limit_step)
  qed
  with r show ?thesis using reachable_inv [of s] by (simp add: inv_counts_def)
qed

lemma release_has_permit:
  assumes "reachable s" "i < length (workers s)" "workers s ! i = (repo, Releasing)"
  shows "0 < outstanding (par (ex s))"
proof -
  from assms(1) have "outstanding (par (ex s)) = active (workers s)"
    using reachable_inv [of s] by (simp add: inv_counts_def)
  moreover have "active (workers s) \<noteq> 0"
    using active_zero_Exited [of "workers s" i] assms(2,3) by auto
  ultimately show ?thesis by simp
qed

lemma limit_initial: "limit (par (ex (initial N observer))) = N"
  by (simp add: initial_def newActionExecutor_def NewRun_def)

section \<open>The claims about waiting\<close>

text \<open>
  Claim C10. When a call of \<^verbatim>\<open>wait\<close> has returned, a second call on the
  executor it left panics: \<^verbatim>\<open>done\<close> is closed already.
\<close>

theorem wait_twice_panics:
  "wait x = Returns (err, x') \<Longrightarrow> wait x' = Panics"
  by (auto simp: wait_def split: if_splits option.splits)

text \<open>
  Claim C10 on an example: an executor whose \<^verbatim>\<open>start\<close> has returned with
  nothing to dispatch.
\<close>

theorem wait_twice_panics_witness:
  "wait exampleStarted = Returns (None, exampleStarted\<lparr>doneCh := True\<rparr>)
   \<and> wait (exampleStarted\<lparr>doneCh := True\<rparr>) = Panics"
proof -
  have h: "wait exampleStarted = Returns (None, exampleStarted\<lparr>doneCh := True\<rparr>)"
    by (simp add: wait_def exampleStarted_def newActionExecutor_def NewRun_def Wait_def
        firstError_def)
  from h wait_twice_panics [OF h] show ?thesis by simp
qed

text \<open>
  Claim C4, as stated, fails in its last part: on an executor on which no repository has
  been enqueued and \<^verbatim>\<open>start\<close> has not been called, \<^verbatim>\<open>wait\<close> does not
  return; it stays blocked at the receive on \<^verbatim>\<open>doneEnqueuing\<close>.
\<close>

theorem wait_before_start_counterexample:
  "wait (newActionExecutor 2 False :: nat actionExecutor) = Blocks"
  by (simp add: wait_def newActionExecutor_def)

text \<open>
  Claim C4, amended. In every state of a run in which \<^verbatim>\<open>wait\<close> has
  returned, \<^verbatim>\<open>start\<close> has returned, its loop has dispatched every element of
  \<^verbatim>\<open>allRepos\<close>, every worker has gone and has left a terminal status for its
  repository, and the value returned is the first error recorded by the concurrency
  primitive, or nil. Once \<^verbatim>\<open>start\<close> has returned on an executor that had no
  repository, a call of \<^verbatim>\<open>wait\<close> returns at once, with nil. As long as
  \<^verbatim>\<open>start\<close> has not returned, a call of \<^verbatim>\<open>wait\<close> blocks.
\<close>

theorem wait_returns_after_all_work:
  assumes "reachable s"
  shows "(waitPc s = WaitReturned err \<longrightarrow>
            startPc s = StartReturned \<and> dispatched s = allRepos s
            \<and> (\<forall>w\<in>set (workers s).
                  snd w = Exited \<and> terminal (getStatus (repos (ex s)) (fst w)))
            \<and> err = firstError (par (ex s)))
    \<and> (startPc s = StartReturned \<and> allRepos s = [] \<and> waitPc s = WaitNotCalled \<longrightarrow>
            wait (ex s) = Returns (None, (ex s)\<lparr>doneCh := True\<rparr>))
    \<and> (startPc s \<noteq> StartReturned \<longrightarrow> wait (ex s) = Blocks)"
proof -
  from assms have i1: "inv_start s" and i2: "inv_counts s" and i3: "inv_wait s"
    and i4: "inv_terminal s"
    by (simp_all add: reachable_inv)
  have returned: "startPc s = StartReturned \<and> dispatched s = allRepos s
            \<and> (\<forall>w\<in>set (workers s).
                  snd w = Exited \<and> terminal (getStatus (repos (ex s)) (fst w)))
            \<and> err = firstError (par (ex s))"
    if w: "waitPc s = WaitReturned err"
  proof -
    from w i3 have de: "doneEnqueuing (ex s)" and a: "active (workers s) = 0"
      and e: "err = firstError (par (ex s))" by (simp_all add: inv_wait_def)
    from i1 de have pc: "startPc s = StartReturned" and d: "dispatched s = allRepos s"
      by (auto simp: inv_start_def split: startPc.splits)
    from a have "\<forall>w\<in>set (workers s). snd w = Exited" by (rule active_zero_all)
    with i4 have "\<forall>w\<in>set (workers s).
        snd w = Exited \<and> terminal (getStatus (repos (ex s)) (fst w))"
      by (auto simp: inv_terminal_def)
    with pc d e show ?thesis by simp
  qed
  have empty: "wait (ex s) = Returns (None, (ex s)\<lparr>doneCh := True\<rparr>)"
    if h: "startPc s = StartReturned \<and> allRepos s = [] \<and> waitPc s = WaitNotCalled"
  proof -
    from h i1 have de: "doneEnqueuing (ex s)" and ws: "workers s = []"
      by (simp_all add: inv_start_def dispatched_def)
    from ws i2 have "outstanding (par (ex s)) = 0" and "errs (par (ex s)) = []"
      by (simp_all add: inv_counts_def active_Nil)
    moreover from h i3 have "\<not> doneCh (ex s)" by (simp add: inv_wait_def)
    ultimately show ?thesis
      using de by (simp add: wait_def Wait_def firstError_def)
  qed
  have blocked: "wait (ex s) = Blocks" if "startPc s \<noteq> StartReturned"
  proof -
    from that i1 have "\<not> doneEnqueuing (ex s)"
      by (auto simp: inv_start_def split: startPc.splits)
    then show ?thesis by (simp add: wait_def)
  qed
  from returned empty blocked show ?thesis by blast
qed

text \<open>
  Claim C4, amended, on the example runs: at the end of the first one
  \<^verbatim>\<open>wait\<close> has returned the error of the worker, which has gone and has left a
  terminal status; at the end of the second one a call of \<^verbatim>\<open>wait\<close> returns at
  once, with nil; and in the first one, before the snapshot, a call of
  \<^verbatim>\<open>wait\<close> blocks.
\<close>

theorem wait_returns_after_all_work_witness:
  "reachable runA13 \<and> waitPc runA13 = WaitReturned (Some (Failure ''boom''))
   \<and> startPc runA13 = StartReturned \<and> dispatched runA13 = allRepos runA13
   \<and> workers runA13 = [(0, Exited)]
   \<and> terminal (getStatus (repos (ex runA13)) 0)
   \<and> Some (Failure ''boom'') = firstError (par (ex runA13))
   \<and> reachable runB3 \<and> startPc runB3 = StartReturned \<and> allRepos runB3 = []
   \<and> waitPc runB3 = WaitNotCalled
   \<and> wait (ex runB3) = Returns (None, (ex runB3)\<lparr>doneCh := True\<rparr>)
   \<and> reachable runA2 \<and> startPc runA2 \<noteq> StartReturned \<and> wait (ex runA2) = Blocks"
proof -
  have h3: "startPc runB3 = StartReturned \<and> allRepos runB3 = [] \<and> waitPc runB3 = WaitNotCalled"
    by (simp add: runB3_def runB2_def runB1_def runB0_def initial_def)
  have h2: "startPc runA2 \<noteq> StartReturned" by (simp add: runA2_def)
  from wait_returns_after_all_work [OF runA13_reachable, of "Some (Failure ''boom'')"]
    wait_returns_after_all_work [OF runB_reachable, of None]
    wait_returns_after_all_work [OF runA_reachable, of None]
    runA13_fields h3 h2 runA13_reachable runB_reachable runA_reachable
  show ?thesis by simp
qed

text \<open>
  Claim C5, as stated, fails when the limit is zero: repository 0 is in the map when
  \<^verbatim>\<open>start\<close> snapshots the keys, and in no state that the run can reach afterwards
  has it been dispatched or has \<^verbatim>\<open>start\<close> returned; the loop stays blocked at
  \<^verbatim>\<open>Acquire\<close>.
\<close>

theorem start_blocked_counterexample:
  "reachable runZ2 \<and> startPc runZ2 = Snapshotting \<and> step runZ2 runZ3
   \<and> startPc runZ3 \<noteq> Snapshotting \<and> repos (ex runZ2) 0 \<noteq> None
   \<and> \<not> (\<exists>s. step\<^sup>*\<^sup>* runZ3 s \<and> (0 \<in> set (dispatched s) \<or> startPc s = StartReturned))"
proof -
  have "repos (ex runZ2) 0 \<noteq> None"
    by (simp add: runZ2_def runZ1_def runZ0_def initial_def repos_enqueueRepo IsZero_exampleTime)
  moreover have "\<not> (\<exists>s. step\<^sup>*\<^sup>* runZ3 s \<and> (0 \<in> set (dispatched s) \<or> startPc s = StartReturned))"
    using blocked_steps [OF _ runZ3_blocked] by (auto simp: dispatched_def)
  moreover have "startPc runZ2 = Snapshotting" "startPc runZ3 \<noteq> Snapshotting"
    by (simp_all add: runZ3_def runZ2_def)
  ultimately show ?thesis using runZ_reachable runZ_steps(3) by simp
qed

text \<open>
  Claim C5, amended. From the step in which \<^verbatim>\<open>start\<close> snapshots the keys of the
  map, whatever happens afterwards, also calls of \<^verbatim>\<open>enqueueRepo\<close>: no
  repository is dispatched twice, every repository dispatched was a key of the map at the
  snapshot, and when \<^verbatim>\<open>start\<close> has returned the repositories dispatched are
  exactly those keys. When the limit is at least one, the run can always go on to a state
  in which \<^verbatim>\<open>start\<close> has returned and has dispatched, once each, exactly the
  keys of the snapshot.
\<close>

theorem start_dispatches_snapshot:
  assumes "reachable s0" and "startPc s0 = Snapshotting" and "step s0 s1"
    and "startPc s1 \<noteq> Snapshotting" and "step\<^sup>*\<^sup>* s1 s"
  shows "distinct (dispatched s) \<and> set (dispatched s) \<subseteq> dom (repos (ex s0))
    \<and> (startPc s = StartReturned \<longrightarrow> set (dispatched s) = dom (repos (ex s0)))
    \<and> (1 \<le> limit (par (ex s0)) \<longrightarrow>
         (\<exists>s'. step\<^sup>*\<^sup>* s s' \<and> startPc s' = StartReturned
            \<and> distinct (dispatched s') \<and> set (dispatched s') = dom (repos (ex s0))))"
proof -
  from snapshot_step [OF assms(3) assms(2) assms(4)]
  have keys: "rangeOrder (allRepos s1) (repos (ex s0))"
    and pc1: "startPc s1 = Dispatching (allRepos s1)" by simp_all
  from allRepos_steps [OF assms(5)] pc1
  have all: "allRepos s = allRepos s1"
    and pc: "(\<exists>rest. startPc s = Dispatching rest) \<or> startPc s = StartReturned" by simp_all
  have r1: "reachable s1" using assms(1) assms(3) by (rule reachable_step)
  with assms(5) have r: "reachable s" by (rule reachable_steps)
  then have inv: "inv_start s" by (simp add: reachable_inv)
  from keys have dk: "distinct (allRepos s1)" and sk: "set (allRepos s1) = dom (repos (ex s0))"
    by (simp_all add: rangeOrder_def)
  have safe: "distinct (dispatched s) \<and> set (dispatched s) \<subseteq> dom (repos (ex s0))
    \<and> (startPc s = StartReturned \<longrightarrow> set (dispatched s) = dom (repos (ex s0)))"
    using pc
  proof
    assume "\<exists>rest. startPc s = Dispatching rest"
    then obtain rest where p: "startPc s = Dispatching rest" ..
    with inv have "dispatched s @ rest = allRepos s1" by (simp add: inv_start_def all)
    with dk sk have "distinct (dispatched s @ rest)"
      and "set (dispatched s @ rest) = dom (repos (ex s0))" by simp_all
    with p show ?thesis by auto
  next
    assume p: "startPc s = StartReturned"
    with inv have "dispatched s = allRepos s1" by (simp add: inv_start_def all)
    with dk sk show ?thesis by simp
  qed
  have live: "\<exists>s'. step\<^sup>*\<^sup>* s s' \<and> startPc s' = StartReturned
            \<and> distinct (dispatched s') \<and> set (dispatched s') = dom (repos (ex s0))"
    if l: "1 \<le> limit (par (ex s0))"
  proof -
    have "limit (par (ex s)) = limit (par (ex s0))"
      using limit_steps [OF assms(5)] limit_step [OF assms(3)] by simp
    with l have ls: "1 \<le> limit (par (ex s))" by simp
    from pc have st: "started s" by (auto simp: started_def)
    from can_complete [OF r ls st] obtain s' where s': "step\<^sup>*\<^sup>* s s'" and c: "complete s'"
      by blast
    from started_steps [OF s' st] all have "allRepos s' = allRepos s1" by simp
    with c dk sk have "startPc s' = StartReturned \<and> distinct (dispatched s')
        \<and> set (dispatched s') = dom (repos (ex s0))"
      by (simp add: complete_def)
    with s' show ?thesis by blast
  qed
  from safe live show ?thesis by blast
qed

text \<open>
  Claim C5, amended, on the first example run, where the limit is one: repository 0 is in
  the map at the snapshot and is dispatched; repository 1 is enqueued after the snapshot,
  is in the map at the end, and is not dispatched.
\<close>

theorem start_dispatches_snapshot_witness:
  "reachable runA2 \<and> startPc runA2 = Snapshotting \<and> step runA2 runA3
   \<and> startPc runA3 \<noteq> Snapshotting \<and> step\<^sup>*\<^sup>* runA3 runA6
   \<and> startPc runA6 = StartReturned \<and> 1 \<le> limit (par (ex runA2))
   \<and> distinct (dispatched runA6) \<and> set (dispatched runA6) = dom (repos (ex runA2))
   \<and> dispatched runA6 = [0] \<and> repos (ex runA6) 1 \<noteq> None
   \<and> (\<exists>s'. step\<^sup>*\<^sup>* runA6 s' \<and> startPc s' = StartReturned
          \<and> distinct (dispatched s') \<and> set (dispatched s') = dom (repos (ex runA2)))"
proof -
  have h2: "startPc runA2 = Snapshotting" by (simp add: runA2_def)
  have h4: "startPc runA3 \<noteq> Snapshotting" by (simp add: runA3_def)
  have h5: "step\<^sup>*\<^sup>* runA3 runA6"
  proof -
    have "step\<^sup>*\<^sup>* runA3 runA4" using runA_steps(4) by (rule r_into_rtranclp)
    then have "step\<^sup>*\<^sup>* runA3 runA5" using runA_steps(5) by (rule rtranclp.rtrancl_into_rtrancl)
    then show ?thesis using runA_steps(6) by (rule rtranclp.rtrancl_into_rtrancl)
  qed
  have h6: "startPc runA6 = StartReturned" by (simp add: runA6_def)
  have l: "1 \<le> limit (par (ex runA2))"
    by (simp add: runA2_def runA1_def runA0_def initial_def enqueueRepo_frame
        newActionExecutor_def NewRun_def)
  have d: "dispatched runA6 = [0]"
    by (simp add: dispatched_def runA_defs initial_def)
  have e: "repos (ex runA6) 1 \<noteq> None"
    by (simp add: runA_defs repos_enqueueRepo IsZero_exampleTime)
  from start_dispatches_snapshot [OF runA_reachable h2 runA_steps(3) h4 h5]
    runA_reachable h2 runA_steps(3) h4 h5 h6 l d e
  show ?thesis by simp
qed

section \<open>The claim about failing operations\<close>

text \<open>
  Claim C3. In every state of a run in which \<^verbatim>\<open>do\<close> has returned an error for a
  repository: the failure is recorded in the status of that repository; the only move
  the worker makes is to report the error to the concurrency primitive, where it is
  appended to the errors recorded and is the first error, the one \<^verbatim>\<open>wait\<close>
  returns, when none was recorded before, and the worker then goes on to give its permit
  back; every worker that has not gone, whichever it is, can make its next move at once;
  and the run can go on to a state in which \<^verbatim>\<open>start\<close> has returned, every
  repository of the snapshot has been dispatched and every worker has gone and has left a
  terminal status, with the error among those recorded.
\<close>

theorem failure_is_isolated:
  assumes "reachable s" and "i < length (workers s)"
    and "workers s ! i = (repo, Returned (Some e))"
  shows "Err (getStatus (repos (ex s)) repo) \<noteq> None
    \<and> (step s t \<and> workers t ! i \<noteq> workers s ! i \<longrightarrow>
          workers t ! i = (repo, Releasing)
          \<and> errs (par (ex t)) = errs (par (ex s)) @ [e]
          \<and> firstError (par (ex t))
              = (if errs (par (ex s)) = [] then Some e else firstError (par (ex s))))
    \<and> (j < length (workers s) \<and> snd (workers s ! j) \<noteq> Exited \<longrightarrow>
          (\<exists>u. step s u \<and> rank (snd (workers u ! j)) < rank (snd (workers s ! j))))
    \<and> (\<exists>s'. step\<^sup>*\<^sup>* s s' \<and> complete s' \<and> allRepos s' = allRepos s
          \<and> e \<in> set (errs (par (ex s'))) \<and> firstError (par (ex s')) \<noteq> None)"
proof -
  from assms(1) have i1: "inv_start s" and i2: "inv_counts s" and i4: "inv_terminal s"
    by (simp_all add: reachable_inv)
  have mem: "(repo, Returned (Some e)) \<in> set (workers s)"
    using assms(2,3) nth_mem [of i "workers s"] by simp
  with i4 have recorded: "Err (getStatus (repos (ex s)) repo) \<noteq> None"
    by (force simp: inv_terminal_def)
  have report: "workers t ! i = (repo, Releasing)
          \<and> errs (par (ex t)) = errs (par (ex s)) @ [e]
          \<and> firstError (par (ex t))
              = (if errs (par (ex s)) = [] then Some e else firstError (par (ex s)))"
    if h: "step s t \<and> workers t ! i \<noteq> workers s ! i"
  proof -
    from h assms(2,3) have m: "workers t ! i = (repo, Releasing)
        \<and> errs (par (ex t)) = errs (par (ex s)) @ [e]"
      using worker_moves_by_report [of s t i repo e] by blast
    then have "firstError (par (ex t))
        = (if errs (par (ex s)) = [] then Some e else firstError (par (ex s)))"
      by (cases "errs (par (ex s))") (simp_all add: firstError_def)
    with m show ?thesis by simp
  qed
  have move: "\<exists>u. step s u \<and> rank (snd (workers u ! j)) < rank (snd (workers s ! j))"
    if "j < length (workers s) \<and> snd (workers s ! j) \<noteq> Exited"
    using that worker_can_move [of j s] by blast
  have finish: "\<exists>s'. step\<^sup>*\<^sup>* s s' \<and> complete s' \<and> allRepos s' = allRepos s
          \<and> e \<in> set (errs (par (ex s'))) \<and> firstError (par (ex s')) \<noteq> None"
  proof -
    from mem have ne: "workers s \<noteq> []" by auto
    with i2 have l: "1 \<le> limit (par (ex s))" by (simp add: inv_counts_def)
    from ne i1 have st: "started s"
      by (auto simp: inv_start_def started_def split: startPc.splits)
    from can_complete [OF assms(1) l st] obtain s' where s': "step\<^sup>*\<^sup>* s s'"
      and c: "complete s'" by blast
    from started_steps [OF s' st] have a: "allRepos s' = allRepos s" by simp
    have "workers s ! i = (repo, Returned (Some e)) \<or> e \<in> set (errs (par (ex s)))"
      using assms(3) by simp
    from report_kept_steps [OF s' assms(2) this]
    have k: "i < length (workers s')"
      and d: "workers s' ! i = (repo, Returned (Some e)) \<or> e \<in> set (errs (par (ex s')))"
      by simp_all
    from c k have "snd (workers s' ! i) = Exited" by (simp add: complete_def)
    with d have rec: "e \<in> set (errs (par (ex s')))" by auto
    then have "firstError (par (ex s')) \<noteq> None"
      by (cases "errs (par (ex s'))") (simp_all add: firstError_def)
    with s' c a rec show ?thesis by blast
  qed
  from recorded report move finish show ?thesis by blast
qed

text \<open>
  Claim C3 on the third example run: the operation of repository 0 has failed while that
  of repository 1 is still running; the worker of repository 0 reports the error in the
  next step, and the worker of repository 1 can move on.
\<close>

theorem failure_is_isolated_witness:
  "reachable runC7 \<and> 0 < length (workers runC7)
   \<and> workers runC7 ! 0 = (0, Returned (Some (Failure ''boom'')))
   \<and> workers runC7 ! 1 = (1, Doing)
   \<and> Err (getStatus (repos (ex runC7)) 0) \<noteq> None
   \<and> step runC7 runC8 \<and> workers runC8 ! 0 \<noteq> workers runC7 ! 0
   \<and> workers runC8 ! 0 = (0, Releasing)
   \<and> errs (par (ex runC8)) = [Failure ''boom'']
   \<and> firstError (par (ex runC8)) = Some (Failure ''boom'')
   \<and> 1 < length (workers runC7) \<and> snd (workers runC7 ! 1) \<noteq> Exited
   \<and> (\<exists>u. step runC7 u \<and> rank (snd (workers u ! 1)) < rank (snd (workers runC7 ! 1)))
   \<and> (\<exists>s'. step\<^sup>*\<^sup>* runC7 s' \<and> complete s' \<and> allRepos s' = [0, 1]
          \<and> Failure ''boom'' \<in> set (errs (par (ex s'))) \<and> firstError (par (ex s')) \<noteq> None)"
proof -
  have h2: "0 < length (workers runC7)"
    and h3: "workers runC7 ! 0 = (0, Returned (Some (Failure ''boom'')))"
    and w1: "workers runC7 ! 1 = (1, Doing)"
    by (simp_all add: runC7_fields)
  have st: "step runC7 runC8 \<and> workers runC8 ! 0 \<noteq> workers runC7 ! 0"
    by (simp add: runC_steps(8) runC7_fields runC8_fields)
  have sib: "1 < length (workers runC7) \<and> snd (workers runC7 ! 1) \<noteq> Exited"
    by (simp add: runC7_fields)
  note inst = failure_is_isolated [OF runC7_reachable h2 h3, of runC8 1]
  from inst have c1: "Err (getStatus (repos (ex runC7)) 0) \<noteq> None" by blast
  from inst st have c2: "workers runC8 ! 0 = (0, Releasing)
      \<and> errs (par (ex runC8)) = errs (par (ex runC7)) @ [Failure ''boom'']
      \<and> firstError (par (ex runC8))
          = (if errs (par (ex runC7)) = [] then Some (Failure ''boom'')
             else firstError (par (ex runC7)))"
    by blast
  from inst sib
  have c3: "\<exists>u. step runC7 u \<and> rank (snd (workers u ! 1)) < rank (snd (workers runC7 ! 1))"
    by blast
  from inst have c4: "\<exists>s'. step\<^sup>*\<^sup>* runC7 s' \<and> complete s' \<and> allRepos s' = allRepos runC7
          \<and> Failure ''boom'' \<in> set (errs (par (ex s'))) \<and> firstError (par (ex s')) \<noteq> None"
    by blast
  from runC7_reachable h2 h3 w1 c1 st c2 sib c3 c4 show ?thesis
    by (simp add: runC7_fields)
qed

section \<open>The claim about the limit\<close>

text \<open>
  Claim C7, as stated, fails when the limit is zero: \<^verbatim>\<open>start\<close> has taken
  repository 0 into \<^verbatim>\<open>allRepos\<close>, and in no state that the run can reach
  afterwards is there a worker or has the repository a terminal status.
\<close>

theorem zero_limit_counterexample:
  "step\<^sup>*\<^sup>* (initial 0 False) runZ3 \<and> allRepos runZ3 = [0]
   \<and> \<not> (\<exists>s. step\<^sup>*\<^sup>* runZ3 s
          \<and> (workers s \<noteq> [] \<or> terminal (getStatus (repos (ex s)) 0)))"
proof -
  have "\<not> (\<exists>s. step\<^sup>*\<^sup>* runZ3 s
          \<and> (workers s \<noteq> [] \<or> terminal (getStatus (repos (ex s)) 0)))"
    using blocked_steps [OF _ runZ3_blocked] by auto
  moreover have "allRepos runZ3 = [0]" by (simp add: runZ3_def)
  ultimately show ?thesis using runZ_from_initial by simp
qed

text \<open>
  Claim C7, amended. With a limit N of at least one, in every state of a run: no more
  than N workers hold a permit, so no more than N operations are running; once
  \<^verbatim>\<open>start\<close> has taken its snapshot, the run can go on to a state in which
  \<^verbatim>\<open>start\<close> has returned, every repository of the snapshot has been dispatched
  and every worker has gone and has left a terminal status; as long as the run is not in
  such a state, a step is possible that takes away from what is left to do; and no step
  adds to what is left to do.
\<close>

theorem bounded_and_completing:
  assumes "step\<^sup>*\<^sup>* (initial N observer) s" and "1 \<le> N"
  shows "int (running (workers s)) \<le> N \<and> int (active (workers s)) \<le> N
    \<and> (started s \<longrightarrow> (\<exists>s'. step\<^sup>*\<^sup>* s s' \<and> complete s' \<and> allRepos s' = allRepos s))
    \<and> (started s \<and> \<not> complete s \<longrightarrow> (\<exists>s'. step s s' \<and> todo s' < todo s))
    \<and> (started s \<and> step s t \<longrightarrow> todo t \<le> todo s)"
proof -
  have r: "reachable s"
    using assms(1) reachable_initial [of N observer] by (rule reachable_steps)
  have l: "limit (par (ex s)) = N"
    using limit_steps [OF assms(1)] by (simp add: limit_initial)
  with assms(2) have l1: "1 \<le> limit (par (ex s))" by simp
  from permits_within_limit [OF r] l assms(2) have a: "int (active (workers s)) \<le> N"
    by simp
  moreover have "int (running (workers s)) \<le> int (active (workers s))"
    using running_le_active [of "workers s"] by simp
  ultimately have bound: "int (running (workers s)) \<le> N \<and> int (active (workers s)) \<le> N"
    by simp
  have possible: "\<exists>s'. step\<^sup>*\<^sup>* s s' \<and> complete s' \<and> allRepos s' = allRepos s"
    if st: "started s"
  proof -
    from can_complete [OF r l1 st] obtain s' where s': "step\<^sup>*\<^sup>* s s'" and c: "complete s'"
      by blast
    from started_steps [OF s' st] have "allRepos s' = allRepos s" by simp
    with s' c show ?thesis by blast
  qed
  have advance: "\<exists>s'. step s s' \<and> todo s' < todo s" if "started s \<and> \<not> complete s"
    using that progress [OF r l1] by blast
  have never_more: "todo t \<le> todo s" if "started s \<and> step s t"
    using that todo_step [of s t] by blast
  from bound possible advance never_more show ?thesis by blast
qed

text \<open>
  Claim C7, amended, on the third example run, where the limit is two: two workers hold
  a permit, one of them is inside \<^verbatim>\<open>do\<close>, the run is not complete, and the step
  in which the failed worker reports its error takes one away from what is left to do.
\<close>

theorem bounded_and_completing_witness:
  "step\<^sup>*\<^sup>* (initial 2 False) runC7 \<and> (1::int) \<le> 2
   \<and> started runC7 \<and> \<not> complete runC7 \<and> step runC7 runC8
   \<and> running (workers runC7) = 1 \<and> active (workers runC7) = 2
   \<and> todo runC7 = 6 \<and> todo runC8 = 5
   \<and> (\<exists>s'. step\<^sup>*\<^sup>* runC7 s' \<and> complete s' \<and> allRepos s' = [0, 1])
   \<and> (\<exists>s'. step runC7 s' \<and> todo s' < todo runC7)"
proof -
  have h2: "(1::int) \<le> 2" by simp
  have st: "started runC7" by (simp add: started_def runC7_fields)
  have nc: "\<not> complete runC7" by (simp add: complete_def runC7_fields)
  have counts: "running (workers runC7) = 1 \<and> active (workers runC7) = 2
      \<and> todo runC7 = 6 \<and> todo runC8 = 5"
    by (simp add: running_def active_def todo_def runC7_fields runC8_fields runC8_def)
  note inst = bounded_and_completing [OF runC_from_initial h2, of runC8]
  from inst st have c1: "\<exists>s'. step\<^sup>*\<^sup>* runC7 s' \<and> complete s' \<and> allRepos s' = allRepos runC7"
    by blast
  from inst st nc have c2: "\<exists>s'. step runC7 s' \<and> todo s' < todo runC7" by blast
  from runC_from_initial h2 st nc runC_steps(8) counts c1 c2 show ?thesis
    by (simp add: runC7_fields)
qed

end
